theory Spec2Isabelle
  imports Main
begin

section \<open>Text as Python sees it\<close>

text \<open>
  A Python \<^verbatim>\<open>str\<close> is a sequence of Unicode code points and \<^verbatim>\<open>len\<close> counts code
  points, so a text is modelled as a list of code point numbers (the program handles
  Chinese text, which does not fit 8-bit characters).
\<close>

type_synonym codepoint = nat
type_synonym ustring = "codepoint list"

definition NEWLINE :: codepoint where
  "NEWLINE = 10"

definition SPACE :: codepoint where
  "SPACE = 32"

text \<open>
  The characters that \<^verbatim>\<open>str.strip\<close>, \<^verbatim>\<open>str.lstrip\<close> and \<^verbatim>\<open>str.rstrip\<close> remove when
  called without an argument: those for which \<^verbatim>\<open>str.isspace\<close> holds.
\<close>

definition is_space :: "codepoint \<Rightarrow> bool" where
  "is_space c \<longleftrightarrow>
     (9 \<le> c \<and> c \<le> 13) \<or> (28 \<le> c \<and> c \<le> 32) \<or> c = 133 \<or> c = 160 \<or> c = 5760 \<or>
     (8192 \<le> c \<and> c \<le> 8202) \<or> c = 8232 \<or> c = 8233 \<or> c = 8239 \<or> c = 8287 \<or> c = 12288"

definition lstrip :: "ustring \<Rightarrow> ustring" where
  "lstrip text = dropWhile is_space text"

definition rstrip :: "ustring \<Rightarrow> ustring" where
  "rstrip text = rev (dropWhile is_space (rev text))"

definition strip :: "ustring \<Rightarrow> ustring" where
  "strip text = rstrip (lstrip text)"

text \<open>
  \<^verbatim>\<open>text.rfind(c, start, end)\<close> for a one-character needle and non-negative bounds: the
  highest index \<open>i\<close> with \<open>start \<le> i < min end (len text)\<close> and \<open>text[i] = c\<close>; Python's
  result \<open>-1\<close> is \<open>None\<close> here.
\<close>

definition rfind :: "ustring \<Rightarrow> codepoint \<Rightarrow> nat \<Rightarrow> nat \<Rightarrow> nat option" where
  "rfind text c start end =
     List.find (\<lambda>i. text ! i = c) (rev [start..<min end (length text)])"

section \<open>The chunker: \<^verbatim>\<open>split_message\<close>\<close>

text \<open>
  The cut position of one loop iteration (the three statements that assign
  \<^verbatim>\<open>split_pos\<close>). \<^verbatim>\<open>max_length\<close> is a natural number: the program only ever passes the
  constant 1000.
\<close>

definition split_pos :: "nat \<Rightarrow> ustring \<Rightarrow> nat" where
  "split_pos max_length text =
     (let p = rfind text NEWLINE 0 max_length;
          p = (if p = None then rfind text SPACE 0 max_length else p)
      in case p of
           None \<Rightarrow> max_length
         | Some q \<Rightarrow> if q < max_length div 2 then max_length else q)"

text \<open>
  The \<^verbatim>\<open>while\<close> loop with the statements after it. The loop need not terminate when
  \<^verbatim>\<open>max_length\<close> is 0, so it is a partial function: \<open>None\<close> means that the call does
  not return.
\<close>

partial_function (option) split_loop :: "nat \<Rightarrow> ustring \<Rightarrow> ustring list \<Rightarrow> ustring list option" where
  "split_loop max_length text parts =
     (if max_length < length text
      then split_loop max_length
             (lstrip (drop (split_pos max_length text) text))
             (parts @ [rstrip (take (split_pos max_length text) text)])
      else Some (if text \<noteq> [] then parts @ [text] else parts))"

declare split_loop.simps [code]

definition MAX_LINE_MESSAGE_LENGTH :: nat where
  "MAX_LINE_MESSAGE_LENGTH = 1000"

definition split_message :: "ustring \<Rightarrow> nat \<Rightarrow> ustring list option" where
  "split_message text max_length = split_loop max_length text []"

subsection \<open>The chunker's contract in the specification's words\<close>

text \<open>
  These definitions follow the specification, not the code; the code is compared with
  them below. \<open>spec_rejoin\<close> puts one separator character between consecutive segments,
  and \<open>spec_squeeze\<close> replaces every run of whitespace by one space, the usual meaning of
  "equivalent up to whitespace". \<open>weave\<close> puts a gap after every segment.
\<close>

fun spec_rejoin :: "codepoint \<Rightarrow> ustring list \<Rightarrow> ustring" where
  "spec_rejoin sep [] = []"
| "spec_rejoin sep [s] = s"
| "spec_rejoin sep (s # s' # ss) = s @ sep # spec_rejoin sep (s' # ss)"

fun spec_squeeze :: "ustring \<Rightarrow> ustring" where
  "spec_squeeze [] = []"
| "spec_squeeze [c] = [if is_space c then SPACE else c]"
| "spec_squeeze (c # d # cs) =
     (if is_space c \<and> is_space d then spec_squeeze (d # cs)
      else (if is_space c then SPACE else c) # spec_squeeze (d # cs))"

definition weave :: "ustring list \<Rightarrow> ustring list \<Rightarrow> ustring" where
  "weave segs gaps = concat (map2 (@) segs gaps)"

text \<open>
  The cut position as the specification words it: "the last newline within the first
  \<open>max_length\<close> characters, else the last space within them" is \<open>spec_found\<close>, and "if the
  found position is earlier than half of \<open>max_length\<close> the cut is made exactly at
  \<open>max_length\<close>" is \<open>spec_cut\<close>, with the half rounded down, \<open>max_length div 2\<close>, as the
  code has it.
  \<open>spec_rtrim s seg\<close>: \<open>seg\<close> is \<open>s\<close> without its trailing whitespace; \<open>spec_ltrim s rest\<close>:
  \<open>rest\<close> is \<open>s\<close> without its leading whitespace.
\<close>

definition spec_is_last :: "codepoint \<Rightarrow> ustring \<Rightarrow> nat \<Rightarrow> bool" where
  "spec_is_last c pre i \<longleftrightarrow> i < length pre \<and> pre ! i = c \<and> c \<notin> set (drop (Suc i) pre)"

definition spec_found :: "nat \<Rightarrow> ustring \<Rightarrow> nat option \<Rightarrow> bool" where
  "spec_found max_length text found \<longleftrightarrow>
     (let pre = take max_length text in
      if NEWLINE \<in> set pre then (\<exists>i. found = Some i \<and> spec_is_last NEWLINE pre i)
      else if SPACE \<in> set pre then (\<exists>i. found = Some i \<and> spec_is_last SPACE pre i)
      else found = None)"

definition spec_cut :: "nat \<Rightarrow> nat option \<Rightarrow> nat" where
  "spec_cut max_length found =
     (case found of
        None \<Rightarrow> max_length
      | Some i \<Rightarrow> if i < max_length div 2 then max_length else i)"

text \<open>The same with the half taken exactly: position \<open>i\<close> is earlier than half of
  \<open>max_length\<close> when \<open>2 * i < max_length\<close>.\<close>

definition spec_cut_exact :: "nat \<Rightarrow> nat option \<Rightarrow> nat" where
  "spec_cut_exact max_length found =
     (case found of
        None \<Rightarrow> max_length
      | Some i \<Rightarrow> if 2 * i < max_length then max_length else i)"

definition spec_rtrim :: "ustring \<Rightarrow> ustring \<Rightarrow> bool" where
  "spec_rtrim s seg \<longleftrightarrow>
     (\<exists>ws. s = seg @ ws \<and> list_all is_space ws) \<and> (seg = [] \<or> \<not> is_space (last seg))"

definition spec_ltrim :: "ustring \<Rightarrow> ustring \<Rightarrow> bool" where
  "spec_ltrim s rest \<longleftrightarrow>
     (\<exists>ws. s = ws @ rest \<and> list_all is_space ws) \<and> (rest = [] \<or> \<not> is_space (hd rest))"

section \<open>The program's constants\<close>

definition MAX_CONCURRENT_REQUESTS :: int where
  "MAX_CONCURRENT_REQUESTS = 5"

text \<open>The wait of \<^verbatim>\<open>thread.join(timeout=15)\<close>, in milliseconds.\<close>

definition JOIN_TIMEOUT :: nat where
  "JOIN_TIMEOUT = 15000"

definition QUERY_REASON :: ustring where
  \<comment> \<open>the first shortcut query, 4 code points\<close>
  "QUERY_REASON =
     [26597, 35426, 21407, 22240]"

definition QUERY_WHY_NO_RESPONSE :: ustring where
  \<comment> \<open>the second shortcut query, 7 code points\<close>
  "QUERY_WHY_NO_RESPONSE =
     [28858, 20160, 40636, 27794, 26377, 22238, 25033]"

definition QUERY_NO_RESPONSE_REASON :: ustring where
  \<comment> \<open>the third shortcut query, 5 code points\<close>
  "QUERY_NO_RESPONSE_REASON =
     [28961, 22238, 25033, 21407, 22240]"

definition CANNED_REPLY :: ustring where
  \<comment> \<open>the reply to a shortcut query\<close>
  "CANNED_REPLY =
     [21487, 33021, 21407, 22240, 21253, 25324, 65306, 31995, 32113, 32321, 24537, 12289,
      65, 80, 73, 32, 22238, 25033, 24310, 36978, 25110, 32178, 32097, 21839, 38988,
      12290, 35531, 31245, 24460, 20877, 35430, 25110, 32879, 32363, 25105, 20497, 12290]"

definition BUSY_REPLY :: ustring where
  \<comment> \<open>the reply when admission is denied\<close>
  "BUSY_REPLY =
     [20302, 25104, 26412, 32173, 36939, 20013, 128517, 32, 30446, 21069, 31995, 32113,
      32321, 24537, 65292, 31561, 31561, 22312, 35430, 35430, 21543, 65281]"

definition STATUS_FALLBACK :: ustring where
  \<comment> \<open>returned by \<^verbatim>\<open>call_xai_api\<close> on a status code other than 200\<close>
  "STATUS_FALLBACK =
     [23565, 19981, 36215, 65292, 29983, 25104, 22238, 25033, 26178, 30332, 29983, 37679,
      35492, 12290, 21487, 33021, 21407, 22240, 21253, 25324, 65306, 31995, 32113, 32321,
      24537, 12289, 65, 80, 73, 32, 22238, 25033, 24310, 36978, 25110, 32178, 32097,
      21839, 38988, 65292, 35531, 31245, 24460, 20877, 35430, 12290]"

definition EXCEPTION_FALLBACK :: ustring where
  \<comment> \<open>returned by \<^verbatim>\<open>call_xai_api\<close> when its request raises\<close>
  "EXCEPTION_FALLBACK =
     [23565, 19981, 36215, 65292, 29983, 25104, 22238, 25033, 26178, 30332, 29983, 20363,
      22806, 12290, 21487, 33021, 21407, 22240, 21253, 25324, 65306, 31995, 32113, 32321,
      24537, 12289, 65, 80, 73, 32, 22238, 25033, 24310, 36978, 25110, 32178, 32097,
      21839, 38988, 65292, 35531, 31245, 24460, 20877, 35430, 12290]"

definition THREAD_FALLBACK :: ustring where
  \<comment> \<open>stored by \<^verbatim>\<open>get_api_response\<close> when \<^verbatim>\<open>call_xai_api\<close> raises\<close>
  "THREAD_FALLBACK =
     [29983, 25104, 22238, 25033, 26178, 30332, 29983, 37679, 35492, 65292, 35531, 31245,
      24460, 20877, 35430, 12290]"

definition DEFAULT_RESPONSE :: ustring where
  \<comment> \<open>the default of \<^verbatim>\<open>container.get\<close>; the same text as \<open>STATUS_FALLBACK\<close>\<close>
  "DEFAULT_RESPONSE =
     [23565, 19981, 36215, 65292, 29983, 25104, 22238, 25033, 26178, 30332, 29983, 37679,
      35492, 12290, 21487, 33021, 21407, 22240, 21253, 25324, 65306, 31995, 32113, 32321,
      24537, 12289, 65, 80, 73, 32, 22238, 25033, 24310, 36978, 25110, 32178, 32097,
      21839, 38988, 65292, 35531, 31245, 24460, 20877, 35430, 12290]"

definition TRIGGER :: ustring where
  \<comment> \<open>the keyword that makes the handler append \<open>EXTRA_BLOCK\<close>\<close>
  "TRIGGER =
     [23450, 32681]"

definition EXTRA_BLOCK :: ustring where
  \<comment> \<open>the supplementary block, 258 code points\<close>
  "EXTRA_BLOCK =
     [80, 77, 80, 32, 31572, 38988, 24605, 32173, 10, 45, 32, 26159, 21542, 25033, 35442,
      36981, 24490, 32, 80, 77, 66, 79, 75, 32, 30340, 27969, 31243, 65311, 26159, 30340,
      65292, 80, 68, 77, 32, 26159, 32, 80, 77, 66, 79, 75, 32, 31532, 32, 54, 32, 29256,
      31532, 32, 54, 32, 31456, 12298, 23560, 26696, 26178, 38291, 31649, 29702, 12299,
      30340, 19968, 37096, 20998, 65292, 29305, 21029, 26159, 22312, 27963, 21205, 25490,
      24207, 36942, 31243, 20013, 20351, 29992, 12290, 10, 45, 32, 36889, 20491, 36984,
      38917, 26159, 21542, 33287, 32, 80, 77, 80, 32, 26368, 20339, 23526, 36368, 30456,
      31526, 65311, 26159, 30340, 65292, 20351, 29992, 32, 80, 68, 77, 32, 32362, 35069,
      27963, 21205, 20043, 38291, 30340, 37007, 36655, 38364, 20418, 26159, 31526, 21512,
      32, 80, 77, 73, 32, 30340, 26368, 20339, 23526, 36368, 12290, 10, 45, 32, 26159,
      21542, 38656, 35201, 33287, 21033, 23475, 38364, 20418, 20154, 21332, 21830, 65292,
      25110, 36981, 24490, 35722, 26356, 31649, 29702, 27969, 31243, 65311, 22312, 32362,
      35069, 32, 80, 68, 77, 32, 30340, 38542, 27573, 65292, 36890, 24120, 19981, 38656,
      35201, 33287, 21033, 23475, 38364, 20418, 20154, 21332, 21830, 65292, 20294, 22914,
      26524, 27963, 21205, 20043, 38291, 30340, 20381, 36084, 38364, 20418, 35722, 26356,
      65292, 21487, 33021, 38656, 35201, 21855, 21205, 35722, 26356, 31649, 29702, 27969,
      31243, 12290, 10, 10, 12304, 80, 77, 66, 79, 75, 32, 31456, 31680, 21443, 32771,
      12305, 65306, 80, 77, 66, 79, 75, 32, 31532, 32, 54, 32, 29256, 65292, 31532, 32,
      54, 32, 31456, 12298, 23560, 26696, 26178, 38291, 31649, 29702, 12299, 12290]"

definition SHORTCUT_QUERIES :: "ustring list" where
  "SHORTCUT_QUERIES = [QUERY_REASON, QUERY_WHY_NO_RESPONSE, QUERY_NO_RESPONSE_REASON]"

section \<open>Python values, exceptions and effects\<close>

text \<open>
  What \<^verbatim>\<open>response.json()\<close> returns: a Python value built from dictionaries, lists,
  strings, numbers, booleans and \<^verbatim>\<open>None\<close>. A dictionary is the list of its items, each
  key once; a number is an integer here, the program never computes with one. Python is dynamically typed, so the value that \<^verbatim>\<open>call_xai_api\<close> returns, and
  that the handler then treats as a text, can be any of these.
\<close>

datatype json =
    JNull
  | JBool bool
  | JNumber int
  | JString ustring
  | JArray "json list"
  | JObject "(ustring \<times> json) list"

datatype py_exception =
    RequestException
  | JSONDecodeError
  | AttributeError
  | IndexError
  | KeyError
  | TypeError
  | LineBotApiError

datatype level = INFO | ERROR

text \<open>
  What a run does to the outside world, in order: the calls to the messaging platform
  and to the generation service, the pause after a push, and the log records with their
  level. A message (\<^verbatim>\<open>TextSendMessage(text=v)\<close>) is the value \<open>v\<close> it carries.
\<close>

datatype effect =
    Reply_message ustring "json list"
  | Push_message ustring json
  | Show_loading_animation ustring nat
  | Post_chat_completion ustring
  | Sleep_half_second
  | Log level

text \<open>What the generation service answers to \<^verbatim>\<open>requests.post\<close>: the call raises, or
  it returns a response with a status code and a body; the body parsed as JSON is \<open>None\<close>
  when it is not JSON (\<^verbatim>\<open>response.json()\<close> raises).\<close>

datatype http_outcome =
    Transport_exception
  | Response int "json option"

text \<open>
  The environment of one invocation of the handler: whether its reply call raises,
  which of its push calls raise (by their position), whether the loading animation call
  raises, what the generation service answers, and after how many milliseconds the
  background thread ends (\<open>None\<close>: never; \<^verbatim>\<open>requests.post\<close> is called without a timeout).
\<close>

record env =
  reply_raises :: bool
  push_raises :: "nat \<Rightarrow> bool"
  loading_raises :: bool
  http :: http_outcome
  duration :: "nat option"

record event =
  reply_token :: ustring
  user_id :: ustring
  message_text :: ustring

datatype outcome = Returned | Raised py_exception

fun is_send_call :: "effect \<Rightarrow> bool" where
  "is_send_call (Reply_message _ _) = True"
| "is_send_call (Push_message _ _) = True"
| "is_send_call _ = False"

definition send_calls :: "effect list \<Rightarrow> effect list" where
  "send_calls effs = filter is_send_call effs"

fun is_generation_call :: "effect \<Rightarrow> bool" where
  "is_generation_call (Post_chat_completion _) = True"
| "is_generation_call _ = False"

text \<open>\<^verbatim>\<open>sub in s\<close> for two strings.\<close>

fun contains :: "ustring \<Rightarrow> ustring \<Rightarrow> bool" where
  "contains sub [] = (sub = [])"
| "contains sub (c # cs) = (take (length sub) (c # cs) = sub \<or> contains sub cs)"

section \<open>The generation client: \<^verbatim>\<open>call_xai_api\<close>\<close>

text \<open>
  \<^verbatim>\<open>v.get(key, default)\<close>: only a dictionary has the method. \<^verbatim>\<open>v[0]\<close>: the first
  element of a list, the first character of a string; a dictionary parsed from JSON has
  string keys only, so the key 0 is missing; the other values cannot be indexed.
\<close>

fun dict_get :: "json \<Rightarrow> ustring \<Rightarrow> json \<Rightarrow> py_exception + json" where
  "dict_get (JObject items) key dflt =
     Inr (case map_of items key of Some v \<Rightarrow> v | None \<Rightarrow> dflt)"
| "dict_get _ key dflt = Inl AttributeError"

fun index0 :: "json \<Rightarrow> py_exception + json" where
  "index0 (JArray []) = Inl IndexError"
| "index0 (JArray (v # vs)) = Inr v"
| "index0 (JString []) = Inl IndexError"
| "index0 (JString (c # cs)) = Inr (JString [c])"
| "index0 (JObject items) = Inl KeyError"
| "index0 _ = Inl TypeError"

text \<open>
  \<^verbatim>\<open>result.get("choices", [{}])[0].get("message", {}).get("content", "")\<close>
\<close>

definition extract_content :: "json \<Rightarrow> py_exception + json" where
  "extract_content result =
     (case dict_get result [99, 104, 111, 105, 99, 101, 115] (JArray [JObject []]) of
        Inl ex \<Rightarrow> Inl ex
      | Inr choices \<Rightarrow>
          (case index0 choices of
             Inl ex \<Rightarrow> Inl ex
           | Inr choice \<Rightarrow>
               (case dict_get choice [109, 101, 115, 115, 97, 103, 101] (JObject []) of
                  Inl ex \<Rightarrow> Inl ex
                | Inr message \<Rightarrow>
                    dict_get message [99, 111, 110, 116, 101, 110, 116] (JString []))))"

text \<open>
  The specification's words for the answer: "response JSON path
  \<^verbatim>\<open>choices[0].message.content\<close> holds the answer text".
\<close>

definition spec_answer :: "json \<Rightarrow> json \<Rightarrow> bool" where
  "spec_answer body answer \<longleftrightarrow>
     (\<exists>items choice others fields.
        body = JObject items
        \<and> map_of items [99, 104, 111, 105, 99, 101, 115] = Some (JArray (JObject choice # others))
        \<and> map_of choice [109, 101, 115, 115, 97, 103, 101] = Some (JObject fields)
        \<and> map_of fields [99, 111, 110, 116, 101, 110, 116] = Some answer)"

text \<open>The body of the \<^verbatim>\<open>try\<close> of \<^verbatim>\<open>call_xai_api\<close>: an exception raised in it, or the log
  records it wrote and the value it returns.\<close>

definition try_post :: "http_outcome \<Rightarrow> py_exception + effect list \<times> json" where
  "try_post h =
     (case h of
        Transport_exception \<Rightarrow> Inl RequestException
      | Response status_code body \<Rightarrow>
          if status_code = 200 then
            (case body of
               None \<Rightarrow> Inl JSONDecodeError
             | Some result \<Rightarrow>
                 (case extract_content result of
                    Inl ex \<Rightarrow> Inl ex
                  | Inr content \<Rightarrow> Inr ([], content)))
          else Inr ([Log ERROR], JString STATUS_FALLBACK))"

text \<open>
  \<^verbatim>\<open>call_xai_api\<close>: \<open>Inl\<close> would be an exception that reaches the caller, \<open>Inr\<close> is the
  effects of the call and the value returned.
\<close>

definition call_xai_api :: "http_outcome \<Rightarrow> ustring \<Rightarrow> py_exception + effect list \<times> json" where
  "call_xai_api h user_message =
     (case try_post h of
        Inr (logs, v) \<Rightarrow> Inr (Post_chat_completion user_message # logs, v)
      | Inl ex \<Rightarrow>
          Inr ([Post_chat_completion user_message, Log ERROR], JString EXCEPTION_FALLBACK))"

text \<open>\<^verbatim>\<open>get_api_response\<close>, the function the background thread runs: the effects of
  the thread and the container it leaves.\<close>

definition RESPONSE_KEY :: ustring where
  "RESPONSE_KEY = [114, 101, 115, 112, 111, 110, 115, 101]"

definition get_api_response ::
    "http_outcome \<Rightarrow> ustring \<Rightarrow> (ustring \<rightharpoonup> json) \<Rightarrow> effect list \<times> (ustring \<rightharpoonup> json)" where
  "get_api_response h user_message container =
     (case call_xai_api h user_message of
        Inr (effs, v) \<Rightarrow> (effs, container(RESPONSE_KEY \<mapsto> v))
      | Inl ex \<Rightarrow> ([Log ERROR], container(RESPONSE_KEY \<mapsto> JString THREAD_FALLBACK)))"

section \<open>The delivery planner: \<^verbatim>\<open>reply_long_text\<close>\<close>

text \<open>
  \<^verbatim>\<open>split_message\<close> applied to any Python value, as the handler does: a string is
  split; a list or a dictionary has a length but no \<^verbatim>\<open>rfind\<close>, so it is returned whole
  when it is short and not empty; \<^verbatim>\<open>len\<close> of the other values raises.
\<close>

fun split_message_value :: "json \<Rightarrow> nat \<Rightarrow> (py_exception + json list) option" where
  "split_message_value (JString s) max_length =
     (case split_message s max_length of
        None \<Rightarrow> None
      | Some parts \<Rightarrow> Some (Inr (map JString parts)))"
| "split_message_value (JArray vs) max_length =
     Some (if max_length < length vs then Inl AttributeError
           else Inr (if vs \<noteq> [] then [JArray vs] else []))"
| "split_message_value (JObject items) max_length =
     Some (if max_length < length items then Inl AttributeError
           else Inr (if items \<noteq> [] then [JObject items] else []))"
| "split_message_value _ max_length = Some (Inl TypeError)"

text \<open>The \<^verbatim>\<open>for\<close> loop over \<^verbatim>\<open>messages[5:]\<close>; \<open>k\<close> counts the pushes made so far.\<close>

fun push_rest :: "env \<Rightarrow> ustring \<Rightarrow> nat \<Rightarrow> json list \<Rightarrow> effect list" where
  "push_rest e uid k [] = []"
| "push_rest e uid k (msg # msgs) =
     (if push_raises e k then [Push_message uid msg, Log ERROR]
      else [Push_message uid msg, Log INFO, Sleep_half_second])
     @ push_rest e uid (Suc k) msgs"

text \<open>The \<^verbatim>\<open>try\<close> statement of \<^verbatim>\<open>reply_long_text\<close>, for the messages built from the
  segments.\<close>

definition deliver :: "env \<Rightarrow> ustring \<Rightarrow> ustring \<Rightarrow> json list \<Rightarrow> effect list" where
  "deliver e rtoken uid messages =
     (if length messages \<le> 5 then
        (if reply_raises e then [Reply_message rtoken messages, Log ERROR]
         else [Reply_message rtoken messages, Log INFO])
      else
        (if reply_raises e then [Reply_message rtoken (take 5 messages), Log ERROR]
         else [Reply_message rtoken (take 5 messages), Log INFO]
              @ push_rest e uid 0 (drop 5 messages)))"

definition reply_long_text :: "env \<Rightarrow> ustring \<Rightarrow> ustring \<Rightarrow> json \<Rightarrow> (effect list \<times> outcome) option" where
  "reply_long_text e rtoken uid text_value =
     (case split_message_value text_value MAX_LINE_MESSAGE_LENGTH of
        None \<Rightarrow> None
      | Some (Inl ex) \<Rightarrow> Some ([], Raised ex)
      | Some (Inr segments) \<Rightarrow> Some (deliver e rtoken uid segments, Returned))"

section \<open>The handler: \<^verbatim>\<open>handle_message\<close>\<close>

definition send_loading_animation :: "env \<Rightarrow> ustring \<Rightarrow> nat \<Rightarrow> effect list" where
  "send_loading_animation e uid loading_seconds =
     (if loading_raises e then [Show_loading_animation uid loading_seconds, Log ERROR]
      else [Show_loading_animation uid loading_seconds, Log INFO])"

text \<open>
  The background thread and the two joins. The thread is started at time 0 and ends
  after \<open>duration\<close>; once it has ended, the container holds what \<^verbatim>\<open>get_api_response\<close>
  stored, before that it is empty. \<^verbatim>\<open>thread.join(timeout)\<close> returns when the thread has
  ended or the timeout has passed, whichever is first; \<^verbatim>\<open>thread.join()\<close> returns when
  the thread has ended, and never if it does not end.
\<close>

definition thread_ended :: "env \<Rightarrow> nat \<Rightarrow> bool" where
  "thread_ended e now = (case duration e of None \<Rightarrow> False | Some d \<Rightarrow> d \<le> now)"

definition join_timeout :: "env \<Rightarrow> nat \<Rightarrow> nat" where
  "join_timeout e timeout = (case duration e of None \<Rightarrow> timeout | Some d \<Rightarrow> min d timeout)"

definition join_forever :: "env \<Rightarrow> nat \<Rightarrow> nat option" where
  "join_forever e now = (case duration e of None \<Rightarrow> None | Some d \<Rightarrow> Some (max now d))"

definition container_at :: "env \<Rightarrow> ustring \<Rightarrow> nat \<Rightarrow> (ustring \<rightharpoonup> json)" where
  "container_at e user_message now =
     (if thread_ended e now then snd (get_api_response (http e) user_message Map.empty)
      else Map.empty)"

text \<open>
  From \<^verbatim>\<open>container = {}\<close> to the assignment of \<^verbatim>\<open>xai_response\<close>: the time at which the
  container is read and the value read, or \<open>None\<close> when the handler waits forever.
\<close>

definition await_response :: "env \<Rightarrow> ustring \<Rightarrow> (nat \<times> json) option" where
  "await_response e user_message =
     (let joined = join_timeout e JOIN_TIMEOUT;
          waited = (if \<not> thread_ended e joined then join_forever e joined else Some joined)
      in case waited of
           None \<Rightarrow> None
         | Some now \<Rightarrow>
             Some (now, case container_at e user_message now RESPONSE_KEY of
                          Some v \<Rightarrow> v
                        | None \<Rightarrow> JString DEFAULT_RESPONSE))"

text \<open>
  \<^verbatim>\<open>xai_response += "\n\n" + EXTRA_BLOCK\<close>: concatenation for a string; a list is extended
  by the characters of the right-hand side; the other values raise.
\<close>

fun append_text :: "json \<Rightarrow> ustring \<Rightarrow> py_exception + json" where
  "append_text (JString s) extra = Inr (JString (s @ extra))"
| "append_text (JArray vs) extra = Inr (JArray (vs @ map (\<lambda>c. JString [c]) extra))"
| "append_text _ extra = Inl TypeError"

definition augment :: "ustring \<Rightarrow> json \<Rightarrow> py_exception + json" where
  "augment user_message xai_response =
     (if contains TRIGGER user_message
      then append_text xai_response ([NEWLINE, NEWLINE] @ EXTRA_BLOCK)
      else Inr xai_response)"

text \<open>The statements of the \<^verbatim>\<open>try\<close> block after \<^verbatim>\<open>xai_response\<close> has been read.\<close>

definition respond :: "env \<Rightarrow> event \<Rightarrow> ustring \<Rightarrow> json \<Rightarrow> (effect list \<times> outcome) option" where
  "respond e ev user_message xai_response =
     (case augment user_message xai_response of
        Inl ex \<Rightarrow> Some ([Log INFO], Raised ex)
      | Inr text_value \<Rightarrow>
          (case reply_long_text e (reply_token ev) (user_id ev) text_value of
             None \<Rightarrow> None
           | Some (effs, Raised ex) \<Rightarrow> Some (Log INFO # effs, Raised ex)
           | Some (effs, Returned) \<Rightarrow> Some (Log INFO # effs @ [Log INFO], Returned)))"

text \<open>The thread's effects happen while the handler waits in \<^verbatim>\<open>join\<close>.\<close>

definition guarded_work :: "env \<Rightarrow> event \<Rightarrow> (effect list \<times> outcome) option" where
  "guarded_work e ev =
     (let uid = user_id ev;
          user_message = strip (message_text ev);
          before = Log INFO # send_loading_animation e uid 10
      in case await_response e user_message of
           None \<Rightarrow> None
         | Some (now, xai_response) \<Rightarrow>
             (case respond e ev user_message xai_response of
                None \<Rightarrow> None
              | Some (effs, out) \<Rightarrow>
                  Some (before @ fst (get_api_response (http e) user_message Map.empty) @ effs,
                        out)))"

text \<open>
  The statements before the \<^verbatim>\<open>try\<close>: the shortcut, then the critical section under
  \<^verbatim>\<open>counter_lock\<close>. The result is the new value of \<^verbatim>\<open>current_requests\<close>, the effects,
  and whether the handler is done or goes on to the guarded work.
\<close>

datatype entry = Finished outcome | Admitted

definition handle_entry :: "env \<Rightarrow> event \<Rightarrow> int \<Rightarrow> int \<times> effect list \<times> entry" where
  "handle_entry e ev current_requests =
     (if strip (message_text ev) \<in> set SHORTCUT_QUERIES then
        (current_requests,
         [Reply_message (reply_token ev) [JString CANNED_REPLY]],
         Finished (if reply_raises e then Raised LineBotApiError else Returned))
      else if current_requests \<ge> MAX_CONCURRENT_REQUESTS then
        (current_requests,
         [Log INFO, Reply_message (reply_token ev) [JString BUSY_REPLY]],
         Finished (if reply_raises e then Raised LineBotApiError else Returned))
      else (current_requests + 1, [], Admitted))"

text \<open>The \<^verbatim>\<open>finally\<close> block.\<close>

definition release :: "int \<Rightarrow> int" where
  "release current_requests = current_requests - 1"

text \<open>
  One invocation of the handler running alone, from the value of \<^verbatim>\<open>current_requests\<close>
  it finds to the one it leaves; \<open>None\<close> when it never returns.
\<close>

definition handle_message :: "env \<Rightarrow> event \<Rightarrow> int \<Rightarrow> (int \<times> effect list \<times> outcome) option" where
  "handle_message e ev current_requests =
     (case handle_entry e ev current_requests of
        (c, effs, Finished out) \<Rightarrow> Some (c, effs, out)
      | (c, effs, Admitted) \<Rightarrow>
          (case guarded_work e ev of
             None \<Rightarrow> None
           | Some (effs', out) \<Rightarrow> Some (release c, effs @ effs', out)))"

section \<open>Concurrent invocations\<close>

text \<open>
  The webhook server may run many invocations at once. \<^verbatim>\<open>current_requests\<close> is the
  only state they share, and it is read and written only while \<^verbatim>\<open>counter_lock\<close> is held,
  so a run of the system is an interleaving of two kinds of atomic steps: an invocation
  enters (the shortcut test and the critical section of \<open>handle_entry\<close>), or an admitted
  invocation whose guarded work has ended leaves (the \<^verbatim>\<open>finally\<close> block). An invocation
  whose guarded work does not end never leaves.
\<close>

datatype invocation =
    Waiting env event
  | Working env event
  | Done outcome

fun is_working :: "invocation \<Rightarrow> bool" where
  "is_working (Working _ _) = True"
| "is_working _ = False"

fun is_done :: "invocation \<Rightarrow> bool" where
  "is_done (Done _) = True"
| "is_done _ = False"

fun is_waiting :: "invocation \<Rightarrow> bool" where
  "is_waiting (Waiting _ _) = True"
| "is_waiting _ = False"

definition after_entry :: "env \<Rightarrow> event \<Rightarrow> entry \<Rightarrow> invocation" where
  "after_entry e ev r = (case r of Finished out \<Rightarrow> Done out | Admitted \<Rightarrow> Working e ev)"

inductive step :: "int \<times> invocation list \<Rightarrow> int \<times> invocation list \<Rightarrow> bool" where
  enter: "i < length invs \<Longrightarrow> invs ! i = Waiting e ev \<Longrightarrow> handle_entry e ev c = (c', effs, r)
          \<Longrightarrow> step (c, invs) (c', invs[i := after_entry e ev r])"
| leave: "i < length invs \<Longrightarrow> invs ! i = Working e ev \<Longrightarrow> guarded_work e ev = Some (effs, out)
          \<Longrightarrow> step (c, invs) (release c, invs[i := Done out])"

text \<open>The states of a run: \<^verbatim>\<open>current_requests\<close> starts at 0 and no invocation has
  entered.\<close>

inductive reachable :: "int \<times> invocation list \<Rightarrow> bool" where
  init: "list_all is_waiting invs \<Longrightarrow> reachable (0, invs)"
| later: "reachable s \<Longrightarrow> step s s' \<Longrightarrow> reachable s'"

definition in_flight :: "invocation list \<Rightarrow> nat" where
  "in_flight invs = length (filter is_working invs)"

section \<open>Properties of the chunker\<close>

subsection \<open>Searching backwards\<close>

lemma rfind_SomeD:
  assumes "rfind t c 0 e = Some i"
  shows "i < e" and "i < length t" and "t ! i = c"
    and "\<And>j. i < j \<Longrightarrow> j < e \<Longrightarrow> j < length t \<Longrightarrow> t ! j \<noteq> c"
proof -
  define n where "n = min e (length t)"
  from assms obtain k where k: "k < n" "t ! (rev [0..<n] ! k) = c" "i = rev [0..<n] ! k"
    "\<forall>j<k. t ! (rev [0..<n] ! j) \<noteq> c"
    unfolding rfind_def find_Some_iff n_def by auto
  have idx: "rev [0..<n] ! j = n - Suc j" if "j < n" for j
    using that by (simp add: rev_nth del: upt_Suc)
  from k idx have i: "i = n - Suc k" by simp
  with k(1) show "i < e" "i < length t" by (auto simp: n_def)
  from k show "t ! i = c" by simp
  fix j assume j: "i < j" "j < e" "j < length t"
  then have jn: "j < n" by (simp add: n_def)
  with j i k(1) have "n - Suc j < k" by linarith
  moreover have "rev [0..<n] ! (n - Suc j) = j" using jn idx[of "n - Suc j"] by simp
  ultimately show "t ! j \<noteq> c" using k(4) by metis
qed

lemma rfind_None_iff:
  "rfind t c 0 e = None \<longleftrightarrow> (\<forall>j. j < e \<and> j < length t \<longrightarrow> t ! j \<noteq> c)"
  unfolding rfind_def find_None_iff by auto

lemma is_space_NEWLINE: "is_space NEWLINE"
  by (simp add: is_space_def NEWLINE_def)

lemma is_space_SPACE: "is_space SPACE"
  by (simp add: is_space_def SPACE_def)

subsection \<open>The cut position\<close>

lemma split_pos_le: "split_pos m t \<le> m"
  by (auto simp: split_pos_def Let_def dest: rfind_SomeD(1) split: option.splits)

lemma split_pos_soft:
  assumes "split_pos m t \<noteq> m"
  shows "split_pos m t < m" and "split_pos m t < length t"
    and "t ! split_pos m t = NEWLINE \<or> t ! split_pos m t = SPACE"
    and "m div 2 \<le> split_pos m t"
proof -
  obtain c where c: "c = NEWLINE \<or> c = SPACE" "rfind t c 0 m = Some (split_pos m t)"
    "\<not> split_pos m t < m div 2"
    using assms by (auto simp: split_pos_def Let_def split: option.splits if_splits)
  from rfind_SomeD(1-3)[OF c(2)] c(1,3)
  show "split_pos m t < m" "split_pos m t < length t"
    "t ! split_pos m t = NEWLINE \<or> t ! split_pos m t = SPACE" "m div 2 \<le> split_pos m t"
    by auto
qed

subsection \<open>Trimming\<close>

lemma length_lstrip_le: "length (lstrip xs) \<le> length xs"
  by (simp add: lstrip_def length_dropWhile_le)

lemma length_rstrip_le: "length (rstrip xs) \<le> length xs"
  unfolding rstrip_def using length_dropWhile_le[of is_space "rev xs"] by simp

subsection \<open>Every iteration shortens the text\<close>

lemma remainder_shorter:
  assumes "1 \<le> m" "m < length t"
  shows "length (lstrip (drop (split_pos m t) t)) < length t"
proof (cases "split_pos m t = 0")
  case False
  then have "length (drop (split_pos m t) t) < length t" using assms by simp
  then show ?thesis using length_lstrip_le[of "drop (split_pos m t) t"] by linarith
next
  case True
  then have "is_space (t ! 0)" using assms
    using split_pos_soft(3)[of m t] by (auto simp: is_space_NEWLINE is_space_SPACE)
  moreover from assms have "t \<noteq> []" by auto
  ultimately have "is_space (hd t)" by (simp add: hd_conv_nth)
  with \<open>t \<noteq> []\<close> have "length (lstrip t) < length t"
    by (cases t) (auto simp: lstrip_def intro: le_imp_less_Suc length_dropWhile_le)
  with True show ?thesis by simp
qed

text \<open>
  The induction principle of the loop for \<open>max_length \<ge> 1\<close>: a property that holds when
  the loop stops, and is carried backwards over one iteration, holds of every call.
\<close>

lemma split_loop_induct [consumes 1, case_names stop cut]:
  assumes m: "1 \<le> m"
    and base: "\<And>t parts. length t \<le> m \<Longrightarrow> Q t parts"
    and step: "\<And>t parts. m < length t \<Longrightarrow>
        Q (lstrip (drop (split_pos m t) t)) (parts @ [rstrip (take (split_pos m t) t)])
        \<Longrightarrow> Q t parts"
  shows "Q t parts"
proof (induction "length t" arbitrary: t parts rule: less_induct)
  case less
  show ?case
  proof (cases "m < length t")
    case True
    from remainder_shorter[OF m True] show ?thesis
      by (intro step[OF True] less)
  next
    case False
    then show ?thesis by (intro base) simp
  qed
qed

lemma split_loop_returns:
  assumes "1 \<le> m"
  shows "\<exists>segs. split_loop m t parts = Some (parts @ segs) \<and> (\<forall>s\<in>set segs. length s \<le> m)"
  using assms
proof (induction t parts rule: split_loop_induct)
  case (stop t parts)
  then show ?case by (subst split_loop.simps) auto
next
  case (cut t parts)
  then obtain segs where segs: "split_loop m (lstrip (drop (split_pos m t) t))
        (parts @ [rstrip (take (split_pos m t) t)])
          = Some ((parts @ [rstrip (take (split_pos m t) t)]) @ segs)"
     "\<forall>s\<in>set segs. length s \<le> m" by blast
  have "length (rstrip (take (split_pos m t) t)) \<le> m"
    using length_rstrip_le[of "take (split_pos m t) t"] split_pos_le[of m t] by simp
  with segs cut(1) show ?case
    by (subst split_loop.simps) (auto intro!: exI[of _ "rstrip (take (split_pos m t) t) # segs"])
qed

text \<open>The two cases of the loop.\<close>

lemma split_loop_cut:
  "m < length t \<Longrightarrow> split_loop m t parts
     = split_loop m (lstrip (drop (split_pos m t) t)) (parts @ [rstrip (take (split_pos m t) t)])"
  by (subst split_loop.simps) simp

lemma split_loop_stop:
  "length t \<le> m \<Longrightarrow> split_loop m t parts = Some (if t \<noteq> [] then parts @ [t] else parts)"
  by (subst split_loop.simps) simp

subsection \<open>Claim C1: segments are bounded; the empty and the short text\<close>

text \<open>
  C1. For every text and every \<open>max_length > 0\<close>, \<^verbatim>\<open>split_message\<close> returns, and no
  segment it returns is longer than \<open>max_length\<close>; the empty text gives no segment; a
  non-empty text of length at most \<open>max_length\<close> gives exactly one segment, the text itself.
\<close>

theorem split_message_bounded:
  assumes "0 < max_length"
  shows "(\<exists>segs. split_message t max_length = Some segs \<and> (\<forall>s\<in>set segs. length s \<le> max_length))
    \<and> split_message [] max_length = Some []
    \<and> (t \<noteq> [] \<and> length t \<le> max_length \<longrightarrow> split_message t max_length = Some [t])"
proof (intro conjI impI)
  from assms have "1 \<le> max_length" by simp
  from split_loop_returns[OF this, of t "[]"]
  show "\<exists>segs. split_message t max_length = Some segs \<and> (\<forall>s\<in>set segs. length s \<le> max_length)"
    by (simp add: split_message_def)
  show "split_message [] max_length = Some []"
    unfolding split_message_def by (subst split_loop.simps) simp
  assume "t \<noteq> [] \<and> length t \<le> max_length"
  then show "split_message t max_length = Some [t]"
    unfolding split_message_def by (subst split_loop.simps) simp
qed

theorem split_message_bounded_witness:
  "0 < (5::nat)
   \<and> split_message [97, 98, 32, 99, 100, 101, 102, 103, 104] 5
        = Some [[97, 98], [99, 100, 101, 102, 103], [104]]
   \<and> (\<exists>segs. split_message [97, 98, 32, 99, 100, 101, 102, 103, 104] 5 = Some segs
         \<and> list_all (\<lambda>s. length s \<le> 5) segs)
   \<and> split_message [] 5 = Some []
   \<and> split_message [97, 98, 32] 5 = Some [[97, 98, 32]]"
proof -
  have pos: "0 < (5::nat)" by simp
  have run: "split_message [97, 98, 32, 99, 100, 101, 102, 103, 104] 5
        = Some [[97, 98], [99, 100, 101, 102, 103], [104]]"
    by code_simp
  from split_message_bounded[OF pos, of "[97, 98, 32, 99, 100, 101, 102, 103, 104]"]
  have bound: "\<exists>segs. split_message [97, 98, 32, 99, 100, 101, 102, 103, 104] 5 = Some segs
         \<and> list_all (\<lambda>s. length s \<le> 5) segs"
    by (simp only: list_all_iff)
  from split_message_bounded[OF pos, of "[97, 98, 32]"]
  have short: "split_message [] 5 = Some []" "split_message [97, 98, 32] 5 = Some [[97, 98, 32]]"
    by simp_all
  from pos run bound short show ?thesis by blast
qed

subsection \<open>Claim C10: the loop terminates\<close>

text \<open>
  C10. For every text and every \<open>max_length \<ge> 1\<close>, an iteration of the loop strictly
  shortens the remaining text: the cut position is positive, or it is 0 and the first
  character is whitespace, which the leading trim removes. So \<^verbatim>\<open>split_message\<close> returns
  on every such input.
\<close>

theorem split_message_terminates:
  assumes "1 \<le> max_length"
  shows "(max_length < length t \<longrightarrow>
            length (lstrip (drop (split_pos max_length t) t)) < length t
          \<and> (0 < split_pos max_length t
               \<or> split_pos max_length t = 0 \<and> t \<noteq> [] \<and> is_space (hd t)))
    \<and> (\<exists>segs. split_message t max_length = Some segs)"
proof (intro conjI impI)
  assume long: "max_length < length t"
  from remainder_shorter[OF assms long]
  show "length (lstrip (drop (split_pos max_length t) t)) < length t" .
  show "0 < split_pos max_length t \<or> split_pos max_length t = 0 \<and> t \<noteq> [] \<and> is_space (hd t)"
  proof (cases "split_pos max_length t = 0")
    case True
    with assms have "split_pos max_length t \<noteq> max_length" by simp
    from split_pos_soft(3)[OF this] True have "is_space (t ! 0)"
      by (auto simp: is_space_NEWLINE is_space_SPACE)
    moreover from long have "t \<noteq> []" by auto
    ultimately show ?thesis using True by (simp add: hd_conv_nth)
  qed simp
next
  from split_loop_returns[OF assms, of t "[]"]
  show "\<exists>segs. split_message t max_length = Some segs"
    by (auto simp: split_message_def)
qed

theorem split_message_terminates_witness:
  "1 \<le> (1::nat) \<and> 1 < length [10, 97, 98 :: nat]
   \<and> split_pos 1 [10, 97, 98] = 0
   \<and> length (lstrip (drop (split_pos 1 [10, 97, 98]) [10, 97, 98])) < length [10, 97, 98 :: nat]
   \<and> is_space (hd [10, 97, 98])
   \<and> (\<exists>segs. split_message [10, 97, 98] 1 = Some segs)"
proof -
  have m: "1 \<le> (1::nat)" by simp
  have long: "1 < length [10, 97, 98 :: nat]" by simp
  have sp: "split_pos 1 [10, 97, 98] = 0" by code_simp
  from split_message_terminates[OF m, of "[10, 97, 98]"] long sp
  show ?thesis by simp
qed

text \<open>
  The bound on \<open>max_length\<close> is needed: with \<open>max_length = 0\<close> the cut position is 0, and a
  text that starts with a character that is not whitespace is never shortened.
\<close>

lemma split_loop_zero_diverges:
  "split_loop 0 (c # cs) parts = None" if "\<not> is_space c"
proof -
  have "m = 0 \<longrightarrow> t \<noteq> [] \<longrightarrow> \<not> is_space (hd t) \<longrightarrow> False"
    if "split_loop m t parts = Some y" for m t parts y
    using that
  proof (induction rule: split_loop.raw_induct[rotated 1, consumes 1])
    case (1 sl m t parts y)
    show ?case
    proof (intro impI)
      assume m: "m = 0" and t: "t \<noteq> []" and h: "\<not> is_space (hd t)"
      have sp: "split_pos m t = 0" using split_pos_le[of m t] m by simp
      from t h have ls: "lstrip t = t" by (cases t) (simp_all add: lstrip_def)
      from 1(2) m t sp ls have "sl m t (parts @ [rstrip (take 0 t)]) = Some y" by simp
      from 1(1)[OF this] m t h show False by simp
    qed
  qed
  from this[of 0 "c # cs" parts] that show ?thesis by (cases "split_loop 0 (c # cs) parts") auto
qed

subsection \<open>Claim C3: what the cuts keep and drop\<close>

lemma rstrip_decomp: "\<exists>ws. s = rstrip s @ ws \<and> list_all is_space ws"
proof -
  have "rev s = takeWhile is_space (rev s) @ dropWhile is_space (rev s)" by simp
  then have "s = rev (dropWhile is_space (rev s)) @ rev (takeWhile is_space (rev s))"
    by (metis rev_append rev_rev_ident)
  moreover have "list_all is_space (rev (takeWhile is_space (rev s)))"
    by (simp add: list_all_iff) (meson set_takeWhileD)
  ultimately show ?thesis unfolding rstrip_def by blast
qed

lemma lstrip_decomp: "\<exists>ws. s = ws @ lstrip s \<and> list_all is_space ws"
proof -
  have "s = takeWhile is_space s @ dropWhile is_space s" by simp
  moreover have "list_all is_space (takeWhile is_space s)"
    by (simp add: list_all_iff) (meson set_takeWhileD)
  ultimately show ?thesis unfolding lstrip_def by blast
qed

lemma cut_decomp:
  "\<exists>gap. t = rstrip (take p t) @ gap @ lstrip (drop p t) \<and> list_all is_space gap"
proof -
  obtain w1 where w1: "take p t = rstrip (take p t) @ w1" "list_all is_space w1"
    using rstrip_decomp by blast
  obtain w2 where w2: "drop p t = w2 @ lstrip (drop p t)" "list_all is_space w2"
    using lstrip_decomp by blast
  have "t = take p t @ drop p t" by simp
  then have "t = rstrip (take p t) @ (w1 @ w2) @ lstrip (drop p t)"
    using w1(1) w2(1) by (metis append.assoc)
  moreover have "list_all is_space (w1 @ w2)" using w1(2) w2(2) by simp
  ultimately show ?thesis by blast
qed

lemma split_loop_weave:
  assumes "1 \<le> m"
  shows "\<exists>segs gaps. split_loop m t parts = Some (parts @ segs) \<and> length gaps = length segs
      \<and> list_all (list_all is_space) gaps \<and> weave segs gaps = t"
  using assms
proof (induction t parts rule: split_loop_induct)
  case (stop t parts)
  show ?case
  proof (cases "t = []")
    case True
    with stop have "split_loop m t parts = Some (parts @ [])"
      by (subst split_loop.simps) simp
    with True show ?thesis by (intro exI[of _ "[]"]) (simp add: weave_def)
  next
    case False
    with stop have "split_loop m t parts = Some (parts @ [t])"
      by (subst split_loop.simps) simp
    then show ?thesis by (intro exI[of _ "[t]"] exI[of _ "[[]]"]) (simp add: weave_def)
  qed
next
  case (cut t parts)
  let ?seg = "rstrip (take (split_pos m t) t)" and ?rem = "lstrip (drop (split_pos m t) t)"
  from cut(2) obtain segs gaps where ih: "split_loop m ?rem (parts @ [?seg]) = Some ((parts @ [?seg]) @ segs)"
    "length gaps = length segs" "list_all (list_all is_space) gaps" "weave segs gaps = ?rem"
    by blast
  obtain gap where gap: "t = ?seg @ gap @ ?rem" "list_all is_space gap"
    using cut_decomp by blast
  from cut(1) ih(1) have "split_loop m t parts = Some (parts @ (?seg # segs))"
    by (subst split_loop.simps) simp
  moreover have "weave (?seg # segs) (gap # gaps) = t"
    using ih(4) gap(1) by (simp add: weave_def)
  ultimately show ?case using ih(2,3) gap(2)
    by (intro exI[of _ "?seg # segs"] exI[of _ "gap # gaps"]) simp
qed

lemma filter_weave:
  "length gaps = length segs \<Longrightarrow> list_all (list_all is_space) gaps \<Longrightarrow>
   filter (\<lambda>c. \<not> is_space c) (weave segs gaps) = filter (\<lambda>c. \<not> is_space c) (concat segs)"
proof (induction segs gaps rule: list_induct2')
  case (4 s segs g gaps)
  then have "filter (\<lambda>c. \<not> is_space c) g = []" by (simp add: list_all_iff filter_empty_conv)
  with 4 show ?case by (simp add: weave_def)
qed (simp_all add: weave_def)

text \<open>
  C3, as amended. For every text and every \<open>max_length > 0\<close>, the text is exactly the
  segments of \<^verbatim>\<open>split_message\<close>, in order, each followed by a gap that is a (possibly
  empty) run of whitespace: nothing but whitespace is dropped, and nothing is
  duplicated. In particular the segments, concatenated, have the characters of the text
  that are not whitespace, in the same order.
\<close>

theorem split_message_conserves:
  assumes "0 < max_length" and "split_message t max_length = Some segs"
  shows "(\<exists>gaps. length gaps = length segs \<and> list_all (list_all is_space) gaps
            \<and> weave segs gaps = t)
    \<and> filter (\<lambda>c. \<not> is_space c) (concat segs) = filter (\<lambda>c. \<not> is_space c) t"
proof -
  from assms(1) have "1 \<le> max_length" by simp
  from split_loop_weave[OF this, of t "[]"] assms(2)
  obtain gaps where g: "length gaps = length segs" "list_all (list_all is_space) gaps"
    "weave segs gaps = t"
    by (auto simp: split_message_def)
  from filter_weave[OF g(1,2)] g show ?thesis by auto
qed

theorem split_message_conserves_witness:
  "0 < (5::nat)
   \<and> split_message [97, 98, 32, 99, 100, 101, 102, 103, 104] 5
        = Some [[97, 98], [99, 100, 101, 102, 103], [104]]
   \<and> (\<exists>gaps. length gaps = length [[97, 98], [99, 100, 101, 102, 103], [104::nat]]
         \<and> list_all (list_all is_space) gaps
         \<and> weave [[97, 98], [99, 100, 101, 102, 103], [104]] gaps
              = [97, 98, 32, 99, 100, 101, 102, 103, 104])
   \<and> filter (\<lambda>c. \<not> is_space c) (concat [[97, 98], [99, 100, 101, 102, 103], [104]])
        = filter (\<lambda>c. \<not> is_space c) [97, 98, 32, 99, 100, 101, 102, 103, 104]"
proof -
  have pos: "0 < (5::nat)" by simp
  have run: "split_message [97, 98, 32, 99, 100, 101, 102, 103, 104] 5
        = Some [[97, 98], [99, 100, 101, 102, 103], [104]]"
    by code_simp
  from split_message_conserves[OF pos run] pos run show ?thesis by blast
qed

text \<open>
  The claim as the specification states it fails where the loop cuts at \<open>max_length\<close>
  inside a word: \<^verbatim>\<open>"abcdef"\<close> with \<open>max_length = 3\<close> gives \<^verbatim>\<open>"abc"\<close> and \<^verbatim>\<open>"def"\<close>, and
  a separator put back at the cut gives a text that is not the trimmed original, also
  when runs of whitespace are taken as one space.
\<close>

lemma cx_run: "split_message [97, 98, 99, 100, 101, 102] 3 = Some [[97, 98, 99], [100, 101, 102]]"
  by code_simp
lemma cx_strip: "strip [97, 98, 99, 100, 101, 102] = [97, 98, 99, 100, 101, 102]"
  by (simp add: strip_def lstrip_def rstrip_def is_space_def)
lemma cx_join: "spec_rejoin sep [[97, 98, 99], [100, 101, 102]] = [97, 98, 99, sep, 100, 101, 102]"
  by simp
lemma cx_sq1: "spec_squeeze [97, 98, 99, 32, 100, 101, 102] = [97, 98, 99, 32, 100, 101, 102]"
  by (simp add: is_space_def SPACE_def)
lemma cx_sq1': "spec_squeeze [97, 98, 99, 10, 100, 101, 102] = [97, 98, 99, 32, 100, 101, 102]"
  by (simp add: is_space_def SPACE_def)
lemma cx_sq2: "spec_squeeze [97, 98, 99, 100, 101, 102] = [97, 98, 99, 100, 101, 102]"
  by (simp add: is_space_def SPACE_def)

theorem split_message_rejoin_counterexample:
  "split_message [97, 98, 99, 100, 101, 102] 3 = Some [[97, 98, 99], [100, 101, 102]]
   \<and> spec_rejoin SPACE [[97, 98, 99], [100, 101, 102]] \<noteq> strip [97, 98, 99, 100, 101, 102]
   \<and> spec_rejoin NEWLINE [[97, 98, 99], [100, 101, 102]] \<noteq> strip [97, 98, 99, 100, 101, 102]
   \<and> spec_squeeze (spec_rejoin SPACE [[97, 98, 99], [100, 101, 102]])
        \<noteq> spec_squeeze (strip [97, 98, 99, 100, 101, 102])
   \<and> spec_squeeze (spec_rejoin NEWLINE [[97, 98, 99], [100, 101, 102]])
        \<noteq> spec_squeeze (strip [97, 98, 99, 100, 101, 102])"
  unfolding cx_run cx_strip cx_join SPACE_def NEWLINE_def cx_sq1 cx_sq1' cx_sq2 by simp

subsection \<open>Claim C5: one iteration of the loop\<close>

lemma rfind_spec_is_last:
  "rfind t c 0 e = Some i \<longleftrightarrow> spec_is_last c (take e t) i"
proof
  assume r: "rfind t c 0 e = Some i"
  note d = rfind_SomeD[OF r]
  have "c \<notin> set (drop (Suc i) (take e t))"
  proof
    assume "c \<in> set (drop (Suc i) (take e t))"
    then obtain k where k: "k < length (drop (Suc i) (take e t))" "drop (Suc i) (take e t) ! k = c"
      by (auto simp: in_set_conv_nth)
    from k(1) have len: "Suc i + k < length (take e t)" by (simp add: min_def split: if_splits)
    then have b: "Suc i + k < e" "Suc i + k < length t" by simp_all
    from len have "drop (Suc i) (take e t) ! k = take e t ! (Suc i + k)" by simp
    also from b have "\<dots> = t ! (Suc i + k)" by simp
    finally have "t ! (Suc i + k) = c" using k(2) by simp
    with d(4)[of "Suc i + k"] b show False by simp
  qed
  with d(1-3) show "spec_is_last c (take e t) i" by (simp add: spec_is_last_def)
next
  assume s: "spec_is_last c (take e t) i"
  then have i: "i < e" "i < length t" "t ! i = c" and no: "c \<notin> set (drop (Suc i) (take e t))"
    by (auto simp: spec_is_last_def)
  have later: "t ! j \<noteq> c" if "i < j" "j < e" "j < length t" for j
  proof
    assume "t ! j = c"
    moreover have "drop (Suc i) (take e t) ! (j - Suc i) = t ! j" using that by simp
    moreover have "j - Suc i < length (drop (Suc i) (take e t))" using that by simp
    ultimately show False using no by (metis nth_mem)
  qed
  show "rfind t c 0 e = Some i"
  proof (cases "rfind t c 0 e")
    case None
    with i show ?thesis by (simp add: rfind_None_iff)
  next
    case (Some k)
    note d = rfind_SomeD[OF Some]
    have "\<not> k < i" using d(4)[of i] i by auto
    moreover have "\<not> i < k" using later[of k] d(1-3) by auto
    ultimately show ?thesis using Some by simp
  qed
qed

lemma rfind_None_set: "rfind t c 0 e = None \<longleftrightarrow> c \<notin> set (take e t)"
  unfolding rfind_None_iff by (auto simp: in_set_conv_nth)

lemma spec_found_rfind:
  "spec_found m t found \<longleftrightarrow>
     found = (if rfind t NEWLINE 0 m = None then rfind t SPACE 0 m else rfind t NEWLINE 0 m)"
proof (cases "rfind t NEWLINE 0 m")
  case None
  note nl = this
  show ?thesis
  proof (cases "rfind t SPACE 0 m")
    case None
    with nl rfind_None_set[of t NEWLINE m] rfind_None_set[of t SPACE m]
    show ?thesis by (auto simp: spec_found_def)
  next
    case (Some i)
    then have "SPACE \<in> set (take m t)" using rfind_None_set[of t SPACE m] by simp
    moreover have "NEWLINE \<notin> set (take m t)" using nl by (simp add: rfind_None_set)
    ultimately show ?thesis using Some nl
      by (auto simp: spec_found_def rfind_spec_is_last[symmetric])
  qed
next
  case (Some i)
  then have "NEWLINE \<in> set (take m t)" using rfind_None_set[of t NEWLINE m] by simp
  then show ?thesis using Some
    by (auto simp: spec_found_def rfind_spec_is_last[symmetric])
qed

lemma split_pos_spec: "spec_found m t found \<Longrightarrow> split_pos m t = spec_cut m found"
  by (simp add: spec_found_rfind split_pos_def spec_cut_def Let_def)

lemma spec_rtrim_iff: "spec_rtrim s seg \<longleftrightarrow> seg = rstrip s"
proof
  assume "spec_rtrim s seg"
  then obtain ws where ws: "s = seg @ ws" "list_all is_space ws" and l: "seg = [] \<or> \<not> is_space (last seg)"
    by (auto simp: spec_rtrim_def)
  have "dropWhile is_space (rev ws @ rev seg) = dropWhile is_space (rev seg)"
    using ws(2) by (simp add: dropWhile_append list_all_iff)
  also have "\<dots> = rev seg" using l by (cases seg rule: rev_cases) auto
  finally show "seg = rstrip s" using ws(1) by (simp add: rstrip_def)
next
  assume seg: "seg = rstrip s"
  have "rstrip s = [] \<or> \<not> is_space (last (rstrip s))"
    unfolding rstrip_def
    by (metis hd_dropWhile last_rev rev_is_Nil_conv)
  with rstrip_decomp[of s] seg show "spec_rtrim s seg" by (auto simp: spec_rtrim_def)
qed

lemma spec_ltrim_iff: "spec_ltrim s rest \<longleftrightarrow> rest = lstrip s"
proof
  assume "spec_ltrim s rest"
  then obtain ws where ws: "s = ws @ rest" "list_all is_space ws" and l: "rest = [] \<or> \<not> is_space (hd rest)"
    by (auto simp: spec_ltrim_def)
  have "dropWhile is_space (ws @ rest) = dropWhile is_space rest"
    using ws(2) by (simp add: dropWhile_append list_all_iff)
  also have "\<dots> = rest" using l by (cases rest) auto
  finally show "rest = lstrip s" using ws(1) by (simp add: lstrip_def)
next
  assume r: "rest = lstrip s"
  have "lstrip s = [] \<or> \<not> is_space (hd (lstrip s))"
    unfolding lstrip_def by (metis hd_dropWhile)
  with lstrip_decomp[of s] r show "spec_ltrim s rest" by (auto simp: spec_ltrim_def)
qed

lemma split_loop_Some_prefix:
  assumes "split_loop m t parts = Some r"
  shows "\<exists>r'. r = parts @ r' \<and> (\<forall>parts'. split_loop m t parts' = Some (parts' @ r'))"
  using assms
proof (induction rule: split_loop.raw_induct[rotated 1, consumes 1])
  case (1 sl m t parts r)
  show ?case
  proof (cases "m < length t")
    case True
    let ?seg = "rstrip (take (split_pos m t) t)" and ?rest = "lstrip (drop (split_pos m t) t)"
    from 1(2) True have "sl m ?rest (parts @ [?seg]) = Some r" by simp
    from 1(1)[OF this] obtain r' where r': "r = (parts @ [?seg]) @ r'"
      "\<forall>parts'. split_loop m ?rest parts' = Some (parts' @ r')" by blast
    have "split_loop m t parts' = Some (parts' @ ?seg # r')" for parts'
      using split_loop_cut[OF True, of parts'] r'(2) by simp
    with r'(1) show ?thesis by (intro exI[of _ "?seg # r'"]) simp
  next
    case False
    then have le: "length t \<le> m" by simp
    from 1(2) False have r: "r = (if t \<noteq> [] then parts @ [t] else parts)" by simp
    have "split_loop m t parts' = Some (parts' @ (if t \<noteq> [] then [t] else []))" for parts'
      using split_loop_stop[OF le, of parts'] by simp
    with r show ?thesis by (intro exI[of _ "if t \<noteq> [] then [t] else []"]) simp
  qed
qed

lemma split_loop_accumulates:
  "split_loop m t parts = map_option ((@) parts) (split_loop m t [])"
proof (cases "split_loop m t []")
  case None
  show ?thesis
  proof (cases "split_loop m t parts")
    case (Some r)
    from split_loop_Some_prefix[OF this] None show ?thesis by auto
  qed (simp add: None)
next
  case (Some r0)
  from split_loop_Some_prefix[OF this] show ?thesis using Some by auto
qed

lemma split_loop_emits:
  assumes "m < length t"
  shows "split_loop m t parts
    = map_option (\<lambda>segs. parts @ rstrip (take (split_pos m t) t) # segs)
        (split_loop m (lstrip (drop (split_pos m t) t)) [])"
proof -
  let ?seg = "rstrip (take (split_pos m t) t)" and ?rest = "lstrip (drop (split_pos m t) t)"
  have "split_loop m t parts = split_loop m ?rest (parts @ [?seg])"
    by (rule split_loop_cut[OF assms])
  also have "\<dots> = map_option ((@) (parts @ [?seg])) (split_loop m ?rest [])"
    by (rule split_loop_accumulates)
  also have "\<dots> = map_option (\<lambda>segs. parts @ ?seg # segs) (split_loop m ?rest [])"
    by (cases "split_loop m ?rest []") simp_all
  finally show ?thesis .
qed

lemma spec_cut_even: "even m \<Longrightarrow> spec_cut m found = spec_cut_exact m found"
  by (cases found) (auto simp: spec_cut_def spec_cut_exact_def elim!: evenE)

text \<open>
  C5, as amended. In every iteration of the loop on a text longer than \<open>max_length\<close>, the
  cut position is the last newline within the first \<open>max_length\<close> characters, else the
  last space within them, and it is \<open>max_length\<close> itself when there is neither or when
  the position found is below \<open>max_length div 2\<close>, the half rounded down; for an even
  \<open>max_length\<close>, such as the program's 1000, these are the positions earlier than half.
  The segment emitted is the text before the cut without its trailing whitespace: it is
  the next element of the output, after the parts collected so far. The loop continues on
  the text from the cut on without its leading whitespace: the rest of the output is the
  output for that remainder, and for \<open>max_length \<ge> 1\<close> it exists.
\<close>

theorem split_loop_iteration:
  assumes "max_length < length t"
  shows "(\<exists>found seg rest. spec_found max_length t found
            \<and> spec_rtrim (take (spec_cut max_length found) t) seg
            \<and> spec_ltrim (drop (spec_cut max_length found) t) rest)
    \<and> (\<forall>found seg rest. spec_found max_length t found
            \<and> spec_rtrim (take (spec_cut max_length found) t) seg
            \<and> spec_ltrim (drop (spec_cut max_length found) t) rest
          \<longrightarrow> split_pos max_length t = spec_cut max_length found
            \<and> (even max_length \<longrightarrow> split_pos max_length t = spec_cut_exact max_length found)
            \<and> split_loop max_length t parts = split_loop max_length rest (parts @ [seg])
            \<and> split_loop max_length t parts
                = map_option (\<lambda>segs. parts @ seg # segs) (split_loop max_length rest [])
            \<and> split_message t max_length = map_option ((#) seg) (split_message rest max_length)
            \<and> (1 \<le> max_length \<longrightarrow>
                  (\<exists>segs. split_message rest max_length = Some segs
                     \<and> split_loop max_length t parts = Some (parts @ seg # segs)
                     \<and> split_message t max_length = Some (seg # segs))))"
proof (intro conjI allI impI)
  show "\<exists>found seg rest. spec_found max_length t found
            \<and> spec_rtrim (take (spec_cut max_length found) t) seg
            \<and> spec_ltrim (drop (spec_cut max_length found) t) rest"
    by (simp add: spec_found_rfind spec_rtrim_iff spec_ltrim_iff)
next
  fix found seg rest
  assume a: "spec_found max_length t found
            \<and> spec_rtrim (take (spec_cut max_length found) t) seg
            \<and> spec_ltrim (drop (spec_cut max_length found) t) rest"
  then show sp: "split_pos max_length t = spec_cut max_length found"
    by (simp add: split_pos_spec)
  then show "split_pos max_length t = spec_cut_exact max_length found" if "even max_length"
    using that by (simp add: spec_cut_even)
  from a sp have seg: "seg = rstrip (take (split_pos max_length t) t)"
    and rest: "rest = lstrip (drop (split_pos max_length t) t)"
    by (simp_all add: spec_rtrim_iff spec_ltrim_iff)
  show "split_loop max_length t parts = split_loop max_length rest (parts @ [seg])"
    unfolding seg rest by (rule split_loop_cut[OF assms])
  show em: "split_loop max_length t parts
                = map_option (\<lambda>segs. parts @ seg # segs) (split_loop max_length rest [])"
    unfolding seg rest by (rule split_loop_emits[OF assms])
  have "split_loop max_length t []
                = map_option (\<lambda>segs. [] @ seg # segs) (split_loop max_length rest [])"
    unfolding seg rest by (rule split_loop_emits[OF assms])
  then show msg: "split_message t max_length = map_option ((#) seg) (split_message rest max_length)"
    by (simp add: split_message_def)
  show "\<exists>segs. split_message rest max_length = Some segs
                     \<and> split_loop max_length t parts = Some (parts @ seg # segs)
                     \<and> split_message t max_length = Some (seg # segs)"
    if "1 \<le> max_length"
  proof -
    from split_loop_returns[OF that, of rest "[]"] obtain segs
      where segs: "split_message rest max_length = Some segs"
      by (auto simp: split_message_def)
    with em msg show ?thesis by (simp add: split_message_def)
  qed
qed

theorem split_loop_iteration_witness:
  "6 < length [97, 98, 99, 100, 10, 101, 102, 32, 103, 104 :: nat]
   \<and> (1::nat) \<le> 6
   \<and> spec_found 6 [97, 98, 99, 100, 10, 101, 102, 32, 103, 104] (Some 4)
   \<and> spec_cut 6 (Some 4) = 4
   \<and> spec_rtrim (take 4 [97, 98, 99, 100, 10, 101, 102, 32, 103, 104]) [97, 98, 99, 100]
   \<and> spec_ltrim (drop 4 [97, 98, 99, 100, 10, 101, 102, 32, 103, 104]) [101, 102, 32, 103, 104]
   \<and> split_pos 6 [97, 98, 99, 100, 10, 101, 102, 32, 103, 104] = 4
   \<and> split_message [101, 102, 32, 103, 104] 6 = Some [[101, 102, 32, 103, 104]]
   \<and> split_message [97, 98, 99, 100, 10, 101, 102, 32, 103, 104] 6
        = Some [[97, 98, 99, 100], [101, 102, 32, 103, 104]]
   \<and> split_loop 6 [97, 98, 99, 100, 10, 101, 102, 32, 103, 104] [[120]]
        = Some [[120], [97, 98, 99, 100], [101, 102, 32, 103, 104]]"
proof -
  let ?t = "[97, 98, 99, 100, 10, 101, 102, 32, 103, 104 :: nat]"
  let ?rest = "[101, 102, 32, 103, 104 :: nat]"
  have long: "6 < length ?t" by simp
  have m: "(1::nat) \<le> 6" by simp
  have found: "spec_found 6 ?t (Some 4)"
    by (simp add: spec_found_def spec_is_last_def NEWLINE_def SPACE_def)
  have cut: "spec_cut 6 (Some 4) = 4" by (simp add: spec_cut_def)
  have seg: "spec_rtrim (take (spec_cut 6 (Some 4)) ?t) [97, 98, 99, 100]"
    unfolding cut spec_rtrim_iff by (simp add: rstrip_def is_space_def)
  have rest: "spec_ltrim (drop (spec_cut 6 (Some 4)) ?t) ?rest"
    unfolding cut spec_ltrim_iff by (simp add: lstrip_def is_space_def)
  have tail: "split_message ?rest 6 = Some [?rest]"
    by (simp add: split_message_def split_loop_stop)
  from split_loop_iteration[OF long, of "[[120]]"] found seg rest m
  have "split_pos 6 ?t = spec_cut 6 (Some 4)
    \<and> (\<exists>segs. split_message ?rest 6 = Some segs
           \<and> split_loop 6 ?t [[120]] = Some ([[120]] @ [97, 98, 99, 100] # segs)
           \<and> split_message ?t 6 = Some ([97, 98, 99, 100] # segs))"
    by blast
  with tail have "split_pos 6 ?t = 4"
    "split_loop 6 ?t [[120]] = Some [[120], [97, 98, 99, 100], ?rest]"
    "split_message ?t 6 = Some [[97, 98, 99, 100], ?rest]"
    by (auto simp: cut)
  with long m found cut seg rest tail show ?thesis by simp
qed

text \<open>
  With the half taken exactly, the claim fails for an odd \<open>max_length\<close>: in \<^verbatim>\<open>"ab cdefgh"\<close>
  with \<open>max_length = 5\<close> the only space is at position 2, which is earlier than half of
  5, and the code cuts there, not at 5, because \<open>5 div 2 = 2\<close>.
\<close>

lemma odd_found: "spec_found 5 [97, 98, 32, 99, 100, 101, 102, 103, 104] (Some 2)"
  by (simp add: spec_found_def spec_is_last_def NEWLINE_def SPACE_def)

lemma odd_cut: "split_pos 5 [97, 98, 32, 99, 100, 101, 102, 103, 104] = 2"
  using split_pos_spec[OF odd_found] by (simp add: spec_cut_def)

lemma odd_run: "split_message [97, 98, 32, 99, 100, 101, 102, 103, 104] 5
    = Some [[97, 98], [99, 100, 101, 102, 103], [104]]"
  by code_simp

theorem split_pos_half_counterexample:
  "5 < length [97, 98, 32, 99, 100, 101, 102, 103, 104 :: nat]
   \<and> spec_found 5 [97, 98, 32, 99, 100, 101, 102, 103, 104] (Some 2)
   \<and> 2 * 2 < (5::nat)
   \<and> spec_cut_exact 5 (Some 2) = 5
   \<and> split_pos 5 [97, 98, 32, 99, 100, 101, 102, 103, 104] = 2
   \<and> split_pos 5 [97, 98, 32, 99, 100, 101, 102, 103, 104] \<noteq> spec_cut_exact 5 (Some 2)
   \<and> split_message [97, 98, 32, 99, 100, 101, 102, 103, 104] 5
        = Some [[97, 98], [99, 100, 101, 102, 103], [104]]"
  using odd_found odd_cut odd_run by (simp add: spec_cut_exact_def)

subsection \<open>Claim C6: empty segments\<close>

lemma rstrip_all_space: "list_all is_space s \<Longrightarrow> rstrip s = []"
  by (simp add: rstrip_def list_all_iff)

lemma lstrip_spaces_then: "list_all is_space ws \<Longrightarrow> s = [] \<or> \<not> is_space (hd s) \<Longrightarrow> lstrip (ws @ s) = s"
  by (cases s) (auto simp: lstrip_def list_all_iff dropWhile_append)

lemma empty_segment_small: "split_message [32, 32, 10, 32, 32, 97, 98, 99, 100, 101, 102] 4
     = Some [[], [97, 98, 99, 100], [101, 102]]"
  by code_simp

lemma empty_segment_default:
  "split_message (replicate 600 NEWLINE @ replicate 500 97) 1000 = Some [[], replicate 500 97]"
proof -
  let ?t = "replicate 600 NEWLINE @ replicate 500 (97::nat)"
  have nl: "NEWLINE \<noteq> (97::nat)" by (simp add: NEWLINE_def)
  have tk: "take 1000 ?t = replicate 600 NEWLINE @ replicate 400 97" by simp
  have "spec_is_last NEWLINE (take 1000 ?t) 599"
    unfolding tk spec_is_last_def using nl by (simp add: nth_append)
  then have "spec_found 1000 ?t (Some 599)"
    unfolding spec_found_def Let_def tk by simp
  from split_pos_spec[OF this] have sp: "split_pos 1000 ?t = 599" by (simp add: spec_cut_def)
  have seg: "rstrip (take 599 ?t) = []"
    by (rule rstrip_all_space) (simp add: list_all_iff is_space_NEWLINE)
  have "drop 599 ?t = replicate 1 NEWLINE @ replicate 500 97" by simp
  moreover have "lstrip (replicate 1 NEWLINE @ replicate 500 97) = replicate 500 97"
  proof (rule lstrip_spaces_then)
    show "list_all is_space (replicate 1 NEWLINE)" by (simp add: is_space_NEWLINE)
    have "\<not> is_space 97" by (simp add: is_space_def)
    then show "replicate 500 97 = [] \<or> \<not> is_space (hd (replicate 500 97))" by simp
  qed
  ultimately have rest: "lstrip (drop 599 ?t) = replicate 500 97" by simp
  have long: "1000 < length ?t" by simp
  have short: "length (replicate 500 (97::nat)) \<le> 1000" by simp
  have ne: "replicate 500 (97::nat) \<noteq> []" by simp
  note split_loop_cut[OF long, of "[]", unfolded sp seg rest]
  also have "split_loop 1000 (replicate 500 97) ([] @ [[]]) = Some [[], replicate 500 97]"
    using split_loop_stop[OF short, of "[] @ [[]]"] ne by simp
  finally show ?thesis by (simp add: split_message_def)
qed

text \<open>
  The output has no segment only for the empty text.
\<close>

lemma split_message_no_segments:
  assumes "0 < m"
  shows "split_message t m = Some [] \<longleftrightarrow> t = []"
proof (cases "m < length t")
  case True
  let ?seg = "rstrip (take (split_pos m t) t)"
  from assms have m: "1 \<le> m" by simp
  from split_loop_returns[OF m, of "lstrip (drop (split_pos m t) t)" "[] @ [?seg]"]
  obtain segs where "split_loop m (lstrip (drop (split_pos m t) t)) ([] @ [?seg])
      = Some (([] @ [?seg]) @ segs)" by blast
  with split_loop_cut[OF True, of "[]"] have "split_message t m = Some (?seg # segs)"
    by (simp add: split_message_def)
  with True show ?thesis by auto
next
  case False
  then have "length t \<le> m" by simp
  from split_loop_stop[OF this, of "[]"] show ?thesis
    by (simp add: split_message_def)
qed

text \<open>
  C6 says that no segment is the empty string. The loop appends the trimmed prefix
  without looking at it (only the last segment is guarded, by \<^verbatim>\<open>if text:\<close>), so a prefix
  that is all whitespace up to the cut gives an empty segment: two spaces, a newline, two
  spaces and \<^verbatim>\<open>"abcdef"\<close> with \<open>max_length = 4\<close>; and, at the length the program uses,
  600 newlines followed by 500 letters.
\<close>

theorem split_message_empty_segment:
  "split_message [32, 32, 10, 32, 32, 97, 98, 99, 100, 101, 102] 4
     = Some [[], [97, 98, 99, 100], [101, 102]]
   \<and> split_message (replicate 600 NEWLINE @ replicate 500 97) MAX_LINE_MESSAGE_LENGTH
     = Some [[], replicate 500 97]"
  using empty_segment_small empty_segment_default
  by (simp add: MAX_LINE_MESSAGE_LENGTH_def)

section \<open>Properties of the delivery planner\<close>

lemma send_calls_push_rest: "send_calls (push_rest e uid k msgs) = map (Push_message uid) msgs"
  by (induction msgs arbitrary: k) (simp_all add: send_calls_def)

text \<open>
  C4, as amended. Up to 5 segments go out in one reply call and no push call. More than
  5 segments: one reply call carries the first 5, and then, if that reply call did not
  raise, each remaining segment goes out in a push call of its own, in the original
  order, whether or not single pushes raise; if the reply call raises, no push call is
  made. \<^verbatim>\<open>reply_long_text\<close> does this with the segments of \<^verbatim>\<open>split_message\<close>.
\<close>

theorem deliver_plan:
  "(length segments \<le> 5 \<longrightarrow>
      send_calls (deliver e rtoken uid segments) = [Reply_message rtoken segments])
   \<and> (5 < length segments \<and> \<not> reply_raises e \<longrightarrow>
      send_calls (deliver e rtoken uid segments)
        = Reply_message rtoken (take 5 segments) # map (Push_message uid) (drop 5 segments))
   \<and> (5 < length segments \<and> reply_raises e \<longrightarrow>
      send_calls (deliver e rtoken uid segments) = [Reply_message rtoken (take 5 segments)])
   \<and> (\<forall>parts. split_message t MAX_LINE_MESSAGE_LENGTH = Some parts \<longrightarrow>
      reply_long_text e rtoken uid (JString t)
        = Some (deliver e rtoken uid (map JString parts), Returned))"
proof (intro conjI impI allI)
  show "send_calls (deliver e rtoken uid segments) = [Reply_message rtoken segments]"
    if "length segments \<le> 5"
    using that by (simp add: deliver_def send_calls_def)
  show "send_calls (deliver e rtoken uid segments)
        = Reply_message rtoken (take 5 segments) # map (Push_message uid) (drop 5 segments)"
    if "5 < length segments \<and> \<not> reply_raises e"
    using that send_calls_push_rest[of e uid 0 "drop 5 segments"]
    by (simp add: deliver_def send_calls_def)
  show "send_calls (deliver e rtoken uid segments) = [Reply_message rtoken (take 5 segments)]"
    if "5 < length segments \<and> reply_raises e"
    using that by (simp add: deliver_def send_calls_def)
  show "reply_long_text e rtoken uid (JString t)
        = Some (deliver e rtoken uid (map JString parts), Returned)"
    if "split_message t MAX_LINE_MESSAGE_LENGTH = Some parts" for parts
    using that by (simp add: reply_long_text_def)
qed

theorem deliver_plan_witness:
  "length [JString [49], JString [50], JString [51]] \<le> 5
   \<and> send_calls (deliver \<lparr>reply_raises = False, push_raises = (\<lambda>k. False), loading_raises = False,
          http = Transport_exception, duration = Some 0\<rparr> [114] [117]
          [JString [49], JString [50], JString [51]])
       = [Reply_message [114] [JString [49], JString [50], JString [51]]]
   \<and> 5 < length [JString [49], JString [50], JString [51], JString [52], JString [53],
                   JString [54], JString [55]]
   \<and> send_calls (deliver \<lparr>reply_raises = False, push_raises = (\<lambda>k. k = 0), loading_raises = False,
          http = Transport_exception, duration = Some 0\<rparr> [114] [117]
          [JString [49], JString [50], JString [51], JString [52], JString [53],
           JString [54], JString [55]])
       = [Reply_message [114] [JString [49], JString [50], JString [51], JString [52], JString [53]],
          Push_message [117] (JString [54]), Push_message [117] (JString [55])]
   \<and> split_message [49, 50] MAX_LINE_MESSAGE_LENGTH = Some [[49, 50]]
   \<and> reply_long_text \<lparr>reply_raises = False, push_raises = (\<lambda>k. False), loading_raises = False,
          http = Transport_exception, duration = Some 0\<rparr> [114] [117] (JString [49, 50])
       = Some ([Reply_message [114] [JString [49, 50]], Log INFO], Returned)"
proof -
  let ?e = "\<lparr>reply_raises = False, push_raises = (\<lambda>k. False), loading_raises = False,
          http = Transport_exception, duration = Some 0\<rparr>"
  let ?e' = "\<lparr>reply_raises = False, push_raises = (\<lambda>k. k = 0), loading_raises = False,
          http = Transport_exception, duration = Some 0\<rparr>"
  let ?three = "[JString [49], JString [50], JString [51]]"
  let ?seven = "[JString [49], JString [50], JString [51], JString [52], JString [53],
           JString [54], JString [55]]"
  have three: "length ?three \<le> 5" by simp
  have seven: "5 < length ?seven \<and> \<not> reply_raises ?e'" by simp
  have short: "split_message [49, 50] MAX_LINE_MESSAGE_LENGTH = Some [[49, 50]]"
    by (simp add: split_message_def MAX_LINE_MESSAGE_LENGTH_def split_loop_stop)
  have d: "deliver ?e [114] [117] (map JString [[49, 50]])
      = [Reply_message [114] [JString [49, 50]], Log INFO]"
    by (simp add: deliver_def)
  from deliver_plan[of ?three ?e "[114]" "[117]" "[49, 50]"] three short d
  have a: "send_calls (deliver ?e [114] [117] ?three) = [Reply_message [114] ?three]"
    and c: "reply_long_text ?e [114] [117] (JString [49, 50])
       = Some ([Reply_message [114] [JString [49, 50]], Log INFO], Returned)"
    by simp_all
  from deliver_plan[of ?seven ?e' "[114]" "[117]" "[]"] seven
  have b: "send_calls (deliver ?e' [114] [117] ?seven)
       = [Reply_message [114] [JString [49], JString [50], JString [51], JString [52], JString [53]],
          Push_message [117] (JString [54]), Push_message [117] (JString [55])]"
    by simp
  from three a seven b short c show ?thesis by simp
qed

text \<open>
  The claim as the specification states it, one push call per remaining segment for
  every segment sequence, fails when the reply call raises: with 7 segments the reply
  call with the first 5 is the only call.
\<close>

theorem deliver_plan_counterexample:
  "5 < length [JString [49], JString [50], JString [51], JString [52], JString [53],
               JString [54], JString [55]]
   \<and> send_calls (deliver \<lparr>reply_raises = True, push_raises = (\<lambda>k. False), loading_raises = False,
          http = Transport_exception, duration = Some 0\<rparr> [114] [117]
          [JString [49], JString [50], JString [51], JString [52], JString [53],
           JString [54], JString [55]])
       = [Reply_message [114] [JString [49], JString [50], JString [51], JString [52], JString [53]]]
   \<and> send_calls (deliver \<lparr>reply_raises = True, push_raises = (\<lambda>k. False), loading_raises = False,
          http = Transport_exception, duration = Some 0\<rparr> [114] [117]
          [JString [49], JString [50], JString [51], JString [52], JString [53],
           JString [54], JString [55]])
       \<noteq> [Reply_message [114] [JString [49], JString [50], JString [51], JString [52], JString [53]],
          Push_message [117] (JString [54]), Push_message [117] (JString [55])]"
  by (simp add: deliver_def send_calls_def)

section \<open>Properties of the generation client\<close>

lemma extract_content_answer: "spec_answer body answer \<Longrightarrow> extract_content body = Inr answer"
  by (auto simp: spec_answer_def extract_content_def)

text \<open>
  C7. \<^verbatim>\<open>call_xai_api\<close> never lets an exception reach its caller. On status code 200, the
  status the code takes for success, with the answer at \<^verbatim>\<open>choices[0].message.content\<close>,
  it returns that answer and logs nothing; on any other status code it returns the
  status fallback text and logs at error level; when the request raises, as on any
  exception inside its \<^verbatim>\<open>try\<close>, it returns the exception fallback text and logs at
  error level.
\<close>

theorem call_xai_api_recovers:
  "(\<exists>effs v. call_xai_api h user_message = Inr (effs, v))
   \<and> (\<forall>body answer. h = Response 200 (Some body) \<and> spec_answer body answer \<longrightarrow>
         call_xai_api h user_message = Inr ([Post_chat_completion user_message], answer))
   \<and> (\<forall>status_code body. h = Response status_code body \<and> status_code \<noteq> 200 \<longrightarrow>
         call_xai_api h user_message
           = Inr ([Post_chat_completion user_message, Log ERROR], JString STATUS_FALLBACK))
   \<and> (\<forall>ex. try_post h = Inl ex \<longrightarrow>
         call_xai_api h user_message
           = Inr ([Post_chat_completion user_message, Log ERROR], JString EXCEPTION_FALLBACK))
   \<and> try_post Transport_exception = Inl RequestException"
proof (intro conjI allI impI)
  show "\<exists>effs v. call_xai_api h user_message = Inr (effs, v)"
    by (cases "try_post h") (auto simp: call_xai_api_def)
  show "call_xai_api h user_message = Inr ([Post_chat_completion user_message], answer)"
    if "h = Response 200 (Some body) \<and> spec_answer body answer" for body answer
    using that extract_content_answer[of body answer]
    by (simp add: call_xai_api_def try_post_def)
  show "call_xai_api h user_message
           = Inr ([Post_chat_completion user_message, Log ERROR], JString STATUS_FALLBACK)"
    if "h = Response status_code body \<and> status_code \<noteq> 200" for status_code body
    using that by (simp add: call_xai_api_def try_post_def)
  show "call_xai_api h user_message
           = Inr ([Post_chat_completion user_message, Log ERROR], JString EXCEPTION_FALLBACK)"
    if "try_post h = Inl ex" for ex
    using that by (simp add: call_xai_api_def)
  show "try_post Transport_exception = Inl RequestException"
    by (simp add: try_post_def)
qed

lemma example_answer:
  "spec_answer
     (JObject [([99, 104, 111, 105, 99, 101, 115],
                JArray [JObject [([109, 101, 115, 115, 97, 103, 101],
                                  JObject [([99, 111, 110, 116, 101, 110, 116],
                                            JString [72, 105])])]])])
     (JString [72, 105])"
  by (simp add: spec_answer_def)

theorem call_xai_api_recovers_witness:
  "spec_answer
     (JObject [([99, 104, 111, 105, 99, 101, 115],
                JArray [JObject [([109, 101, 115, 115, 97, 103, 101],
                                  JObject [([99, 111, 110, 116, 101, 110, 116],
                                            JString [72, 105])])]])])
     (JString [72, 105])
   \<and> call_xai_api
       (Response 200 (Some
         (JObject [([99, 104, 111, 105, 99, 101, 115],
                    JArray [JObject [([109, 101, 115, 115, 97, 103, 101],
                                      JObject [([99, 111, 110, 116, 101, 110, 116],
                                                JString [72, 105])])]])]))) [104, 105]
       = Inr ([Post_chat_completion [104, 105]], JString [72, 105])
   \<and> (503::int) \<noteq> 200
   \<and> call_xai_api (Response 503 None) [104, 105]
       = Inr ([Post_chat_completion [104, 105], Log ERROR], JString STATUS_FALLBACK)
   \<and> try_post Transport_exception = Inl RequestException
   \<and> call_xai_api Transport_exception [104, 105]
       = Inr ([Post_chat_completion [104, 105], Log ERROR], JString EXCEPTION_FALLBACK)"
proof -
  let ?body = "JObject [([99, 104, 111, 105, 99, 101, 115],
                JArray [JObject [([109, 101, 115, 115, 97, 103, 101],
                                  JObject [([99, 111, 110, 116, 101, 110, 116],
                                            JString [72, 105])])]])]"
  note ok = call_xai_api_recovers[of "Response 200 (Some ?body)" "[104, 105]"]
  note bad = call_xai_api_recovers[of "Response 503 None" "[104, 105]"]
  note exc = call_xai_api_recovers[of Transport_exception "[104, 105]"]
  have a: "call_xai_api (Response 200 (Some ?body)) [104, 105]
       = Inr ([Post_chat_completion [104, 105]], JString [72, 105])"
    using ok example_answer by blast
  have b: "call_xai_api (Response 503 None) [104, 105]
       = Inr ([Post_chat_completion [104, 105], Log ERROR], JString STATUS_FALLBACK)"
    using bad by simp
  have c: "try_post Transport_exception = Inl RequestException"
    "call_xai_api Transport_exception [104, 105]
       = Inr ([Post_chat_completion [104, 105], Log ERROR], JString EXCEPTION_FALLBACK)"
    using exc by blast+
  from example_answer a b c show ?thesis by simp
qed

section \<open>Properties of the handler\<close>

subsection \<open>Waiting for the background thread\<close>

lemma container_after_thread:
  assumes "call_xai_api (http e) user_message = Inr (effs, v)"
  shows "get_api_response (http e) user_message Map.empty = (effs, [RESPONSE_KEY \<mapsto> v])"
  using assms by (simp add: get_api_response_def)

lemma await_response_ended:
  assumes "duration e = Some d" and "call_xai_api (http e) user_message = Inr (effs, v)"
  shows "await_response e user_message = Some (d, v)"
proof (cases "d \<le> JOIN_TIMEOUT")
  case True
  with assms show ?thesis
    by (simp add: await_response_def join_timeout_def thread_ended_def container_at_def
        container_after_thread min_def)
next
  case False
  with assms show ?thesis
    by (simp add: await_response_def join_timeout_def thread_ended_def container_at_def
        container_after_thread join_forever_def min_def max_def)
qed


text \<open>
  The second \<^verbatim>\<open>join\<close> is what makes a late answer arrive: when the first one times out,
  the thread is still alive and the container is still empty.
\<close>

lemma second_join_needed:
  assumes "duration e = Some d" and "JOIN_TIMEOUT < d"
  shows "\<not> thread_ended e (join_timeout e JOIN_TIMEOUT)"
    and "container_at e user_message (join_timeout e JOIN_TIMEOUT) = Map.empty"
  using assms by (simp_all add: thread_ended_def join_timeout_def container_at_def)



lemma respond_plain:
  assumes "\<not> contains TRIGGER user_message"
    and "split_message s MAX_LINE_MESSAGE_LENGTH = Some parts"
  shows "respond e ev user_message (JString s)
    = Some (Log INFO # deliver e (reply_token ev) (user_id ev) (map JString parts) @ [Log INFO],
            Returned)"
  using assms by (simp add: respond_def augment_def reply_long_text_def)

lemma guarded_work_ended:
  assumes "duration e = Some d"
    and "call_xai_api (http e) (strip (message_text ev)) = Inr (effs, v)"
  shows "guarded_work e ev
             = (case respond e ev (strip (message_text ev)) v of
                  None \<Rightarrow> None
                | Some (effs', out) \<Rightarrow>
                    Some (Log INFO # send_loading_animation e (user_id ev) 10 @ effs @ effs', out))"
proof -
  from assms have "await_response e (strip (message_text ev)) = Some (d, v)"
    by (simp add: await_response_ended)
  moreover from assms have "get_api_response (http e) (strip (message_text ev)) Map.empty
      = (effs, [RESPONSE_KEY \<mapsto> v])"
    by (simp add: container_after_thread)
  ultimately show ?thesis
    by (simp add: guarded_work_def Let_def split: option.splits)
qed


lemma example_call:
  "call_xai_api
       (Response 200 (Some
         (JObject [([99, 104, 111, 105, 99, 101, 115],
                    JArray [JObject [([109, 101, 115, 115, 97, 103, 101],
                                      JObject [([99, 111, 110, 116, 101, 110, 116],
                                                JString [72, 105])])]])]))) [104, 105]
       = Inr ([Post_chat_completion [104, 105]], JString [72, 105])"
  by (simp add: call_xai_api_def try_post_def extract_content_def)

lemma example_strip: "strip [104, 105] = [104, 105]"
  by (simp add: strip_def lstrip_def rstrip_def is_space_def)

lemma example_no_trigger: "\<not> contains TRIGGER [104, 105]"
  by (simp add: TRIGGER_def)

lemma example_split: "split_message [72, 105] MAX_LINE_MESSAGE_LENGTH = Some [[72, 105]]"
  by (simp add: split_message_def MAX_LINE_MESSAGE_LENGTH_def split_loop_stop)

lemma example_work:
  "guarded_work
     \<lparr>reply_raises = False, push_raises = (\<lambda>k. False), loading_raises = False,
       http = Response 200 (Some
         (JObject [([99, 104, 111, 105, 99, 101, 115],
                    JArray [JObject [([109, 101, 115, 115, 97, 103, 101],
                                      JObject [([99, 111, 110, 116, 101, 110, 116],
                                                JString [72, 105])])]])])),
       duration = Some 20000\<rparr>
     \<lparr>reply_token = [114], user_id = [117], message_text = [104, 105]\<rparr>
   = Some ([Log INFO, Show_loading_animation [117] 10, Log INFO, Post_chat_completion [104, 105],
            Log INFO, Reply_message [114] [JString [72, 105]], Log INFO, Log INFO], Returned)"
proof -
  let ?e = "\<lparr>reply_raises = False, push_raises = (\<lambda>k. False), loading_raises = False,
       http = Response 200 (Some
         (JObject [([99, 104, 111, 105, 99, 101, 115],
                    JArray [JObject [([109, 101, 115, 115, 97, 103, 101],
                                      JObject [([99, 111, 110, 116, 101, 110, 116],
                                                JString [72, 105])])]])])),
       duration = Some 20000\<rparr>"
  let ?ev = "\<lparr>reply_token = [114], user_id = [117], message_text = [104, 105]\<rparr>"
  have msg: "strip (message_text ?ev) = [104, 105]" using example_strip by simp
  have c: "call_xai_api (http ?e) (strip (message_text ?ev))
      = Inr ([Post_chat_completion [104, 105]], JString [72, 105])"
    unfolding msg using example_call by simp
  have d: "duration ?e = Some 20000" by simp
  have re: "respond ?e ?ev [104, 105] (JString [72, 105])
     = Some (Log INFO # deliver ?e (reply_token ?ev) (user_id ?ev) (map JString [[72, 105]]) @ [Log INFO],
            Returned)"
    by (rule respond_plain[OF example_no_trigger example_split])
  have de: "deliver ?e (reply_token ?ev) (user_id ?ev) (map JString [[72, 105]])
      = [Reply_message [114] [JString [72, 105]], Log INFO]"
    by (simp add: deliver_def)
  have re': "respond ?e ?ev [104, 105] (JString [72, 105])
     = Some ([Log INFO, Reply_message [114] [JString [72, 105]], Log INFO, Log INFO], Returned)"
    unfolding re de by simp
  have lo: "send_loading_animation ?e (user_id ?ev) 10 = [Show_loading_animation [117] 10, Log INFO]"
    by (simp add: send_loading_animation_def)
  show ?thesis
    unfolding guarded_work_ended[OF d c] msg re' lo by simp
qed


subsection \<open>The shortcut\<close>

text \<open>
  C9. When the message, stripped, is one of the three shortcut queries, the handler
  makes one reply call with the canned text and is done: no request goes to the
  generation service and \<^verbatim>\<open>current_requests\<close> keeps its value.
\<close>

theorem shortcut_bypasses:
  assumes "strip (message_text ev) \<in> set SHORTCUT_QUERIES"
  shows "\<exists>effs out. handle_message e ev current_requests = Some (current_requests, effs, out)
      \<and> effs = [Reply_message (reply_token ev) [JString CANNED_REPLY]]
      \<and> filter is_generation_call effs = []
      \<and> handle_entry e ev current_requests = (current_requests, effs, Finished out)"
  using assms by (simp add: handle_message_def handle_entry_def)

theorem shortcut_bypasses_witness:
  "strip [32, 26597, 35426, 21407, 22240, 10] \<in> set SHORTCUT_QUERIES
   \<and> handle_message
        \<lparr>reply_raises = False, push_raises = (\<lambda>k. False), loading_raises = False,
          http = Transport_exception, duration = None\<rparr>
        \<lparr>reply_token = [114], user_id = [117],
          message_text = [32, 26597, 35426, 21407, 22240, 10]\<rparr> 3
      = Some (3, [Reply_message [114] [JString CANNED_REPLY]], Returned)"
proof -
  let ?e = "\<lparr>reply_raises = False, push_raises = (\<lambda>k. False), loading_raises = False,
          http = Transport_exception, duration = None\<rparr>"
  let ?ev = "\<lparr>reply_token = [114], user_id = [117],
          message_text = [32, 26597, 35426, 21407, 22240, 10]\<rparr>"
  have s: "strip [32, 26597, 35426, 21407, 22240, 10] = QUERY_REASON"
    by (simp add: strip_def lstrip_def rstrip_def is_space_def QUERY_REASON_def)
  then have q: "strip (message_text ?ev) \<in> set SHORTCUT_QUERIES"
    by (simp add: SHORTCUT_QUERIES_def)
  from shortcut_bypasses[OF q, of ?e 3] obtain effs out where
    r: "handle_message ?e ?ev 3 = Some (3, effs, out)"
      "effs = [Reply_message (reply_token ?ev) [JString CANNED_REPLY]]"
      "handle_entry ?e ?ev 3 = (3, effs, Finished out)"
    by blast
  from r(3) q have "out = Returned" by (simp add: handle_entry_def)
  with r q show ?thesis by simp
qed

section \<open>Properties of concurrent invocations\<close>

lemma count_update:
  "i < length xs \<Longrightarrow>
   length (filter P (xs[i := y])) + (if P (xs ! i) then 1 else 0)
     = length (filter P xs) + (if P y then 1 else 0)"
proof (induction xs arbitrary: i)
  case Nil
  then show ?case by simp
next
  case (Cons x xs)
  show ?case
  proof (cases i)
    case 0
    then show ?thesis by simp
  next
    case (Suc j)
    with Cons.prems have "j < length xs" by simp
    from Cons.IH[OF this] Suc show ?thesis by simp
  qed
qed

lemma in_flight_admit:
  assumes "i < length invs" "invs ! i = Waiting e ev"
  shows "in_flight (invs[i := Working e ev]) = Suc (in_flight invs)"
  using count_update[OF assms(1), of is_working "Working e ev"] assms(2)
  by (simp add: in_flight_def)

lemma in_flight_finish:
  assumes "i < length invs" "invs ! i = Waiting e ev"
  shows "in_flight (invs[i := Done out]) = in_flight invs"
  using count_update[OF assms(1), of is_working "Done out"] assms(2)
  by (simp add: in_flight_def)

lemma in_flight_leave:
  assumes "i < length invs" "invs ! i = Working e ev"
  shows "Suc (in_flight (invs[i := Done out])) = in_flight invs"
  using count_update[OF assms(1), of is_working "Done out"] assms(2)
  by (simp add: in_flight_def)

lemma in_flight_waiting: "list_all is_waiting invs \<Longrightarrow> in_flight invs = 0"
  by (induction invs) (auto simp: in_flight_def elim: is_waiting.elims)

lemma in_flight_done: "list_all is_done invs \<Longrightarrow> in_flight invs = 0"
  by (induction invs) (auto simp: in_flight_def elim: is_done.elims)

lemma handle_entry_cases:
  assumes "handle_entry e ev c = (c', effs, r)"
  shows "(r = Admitted \<and> c < MAX_CONCURRENT_REQUESTS \<and> c' = c + 1 \<and> effs = []) 
       \<or> ((\<exists>out. r = Finished out) \<and> c' = c)"
  using assms by (auto simp: handle_entry_def split: if_splits)

lemma step_invariant:
  assumes "step (c, invs) (c', invs')"
    and "c = int (in_flight invs)" and "c \<le> MAX_CONCURRENT_REQUESTS"
  shows "c' = int (in_flight invs') \<and> c' \<le> MAX_CONCURRENT_REQUESTS"
  using assms
proof (cases rule: step.cases)
  case (enter i e ev effs r)
  from handle_entry_cases[OF enter(4)] show ?thesis
  proof (elim disjE conjE exE)
    assume "r = Admitted" "c < MAX_CONCURRENT_REQUESTS" "c' = c + 1"
    with enter assms(2) in_flight_admit[OF enter(2,3)] show ?thesis
      by (simp add: after_entry_def)
  next
    fix out assume "r = Finished out" "c' = c"
    with enter assms(2,3) in_flight_finish[OF enter(2,3), of out] show ?thesis
      by (simp add: after_entry_def)
  qed
next
  case (leave i e ev effs out)
  with assms(2,3) in_flight_leave[OF leave(3,4), of out] show ?thesis
    by (simp add: release_def)
qed

lemma reachable_invariant:
  "reachable s \<Longrightarrow> fst s = int (in_flight (snd s)) \<and> fst s \<le> MAX_CONCURRENT_REQUESTS"
proof (induction rule: reachable.induct)
  case (init invs)
  then show ?case by (simp add: in_flight_waiting MAX_CONCURRENT_REQUESTS_def)
next
  case (later s s')
  obtain c invs c' invs' where s: "s = (c, invs)" "s' = (c', invs')"
    by (cases s, cases s') auto
  with later step_invariant[of c invs c' invs'] show ?case by simp
qed

lemma handle_message_restores:
  assumes "handle_message e ev c = Some (c', effs, out)"
  shows "c' = c"
proof -
  obtain c1 effs1 r where en: "handle_entry e ev c = (c1, effs1, r)"
    by (cases "handle_entry e ev c") auto
  from handle_entry_cases[OF en] show ?thesis
  proof (elim disjE conjE exE)
    assume "r = Admitted" "c1 = c + 1"
    with en assms show ?thesis
      by (auto simp: handle_message_def release_def split: option.splits)
  next
    fix out' assume "r = Finished out'" "c1 = c"
    with en assms show ?thesis by (simp add: handle_message_def)
  qed
qed

text \<open>
  C2. In every state of every run, \<^verbatim>\<open>current_requests\<close> is the number of invocations
  that hold a ticket, and it is between 0 and \<open>MAX_CONCURRENT_REQUESTS\<close>; when all
  invocations are done it is 0. An entry either admits (below the ceiling, adding 1) or
  leaves the counter as it was; a denied request changes nothing and replies that the
  system is busy. After an admission the guarded work, however it ends (return or
  exception, in time or late), is followed by the one decrement of the \<^verbatim>\<open>finally\<close> block,
  so an invocation that ends leaves the counter as it found it.
\<close>

theorem admission_ceiling:
  assumes "reachable (current_requests, invs)"
  shows "0 \<le> current_requests \<and> current_requests \<le> MAX_CONCURRENT_REQUESTS
    \<and> current_requests = int (in_flight invs)
    \<and> (list_all is_done invs \<longrightarrow> current_requests = 0)
    \<and> (\<forall>e ev c c' effs r. handle_entry e ev c = (c', effs, r) \<longrightarrow>
          (r = Admitted \<and> c < MAX_CONCURRENT_REQUESTS \<and> c' = c + 1)
          \<or> ((\<exists>out. r = Finished out) \<and> c' = c))
    \<and> (\<forall>e ev c. strip (message_text ev) \<notin> set SHORTCUT_QUERIES \<and> MAX_CONCURRENT_REQUESTS \<le> c \<longrightarrow>
          (\<exists>out. handle_entry e ev c
             = (c, [Log INFO, Reply_message (reply_token ev) [JString BUSY_REPLY]], Finished out)))
    \<and> (\<forall>e ev c effs out effs'. handle_entry e ev c = (c + 1, effs, Admitted)
            \<and> guarded_work e ev = Some (effs', out) \<longrightarrow>
          handle_message e ev c = Some (release (c + 1), effs @ effs', out) \<and> release (c + 1) = c)
    \<and> (\<forall>e ev c c' effs out. handle_message e ev c = Some (c', effs, out) \<longrightarrow> c' = c)"
proof (intro conjI allI impI)
  from reachable_invariant[OF assms]
  show "current_requests = int (in_flight invs)" "current_requests \<le> MAX_CONCURRENT_REQUESTS"
    by simp_all
  then show "0 \<le> current_requests" by simp
  show "current_requests = 0" if "list_all is_done invs"
    using that reachable_invariant[OF assms] by (simp add: in_flight_done)
next
  fix e ev c c' effs r
  assume "handle_entry e ev c = (c', effs, r)"
  from handle_entry_cases[OF this]
  show "(r = Admitted \<and> c < MAX_CONCURRENT_REQUESTS \<and> c' = c + 1)
          \<or> ((\<exists>out. r = Finished out) \<and> c' = c)" by blast
next
  fix e :: env and ev :: event and c :: int
  assume "strip (message_text ev) \<notin> set SHORTCUT_QUERIES \<and> MAX_CONCURRENT_REQUESTS \<le> c"
  then show "\<exists>out. handle_entry e ev c
             = (c, [Log INFO, Reply_message (reply_token ev) [JString BUSY_REPLY]], Finished out)"
    by (simp add: handle_entry_def)
next
  fix e ev c effs out effs'
  assume a: "handle_entry e ev c = (c + 1, effs, Admitted) \<and> guarded_work e ev = Some (effs', out)"
  then show "handle_message e ev c = Some (release (c + 1), effs @ effs', out)"
    by (simp add: handle_message_def)
  show "release (c + 1) = c" by (simp add: release_def)
next
  fix e ev c c' effs out
  assume "handle_message e ev c = Some (c', effs, out)"
  then show "c' = c" by (rule handle_message_restores)
qed

lemma example_entry:
  "handle_entry e \<lparr>reply_token = [114], user_id = [117], message_text = [104, 105]\<rparr> 0
     = (1, [], Admitted)"
  by (simp add: handle_entry_def example_strip SHORTCUT_QUERIES_def QUERY_REASON_def
      QUERY_WHY_NO_RESPONSE_def QUERY_NO_RESPONSE_REASON_def MAX_CONCURRENT_REQUESTS_def)

theorem admission_ceiling_witness:
  "reachable (1, [Working
       \<lparr>reply_raises = False, push_raises = (\<lambda>k. False), loading_raises = False,
         http = Response 200 (Some
           (JObject [([99, 104, 111, 105, 99, 101, 115],
                      JArray [JObject [([109, 101, 115, 115, 97, 103, 101],
                                        JObject [([99, 111, 110, 116, 101, 110, 116],
                                                  JString [72, 105])])]])])),
         duration = Some 20000\<rparr>
       \<lparr>reply_token = [114], user_id = [117], message_text = [104, 105]\<rparr>])
   \<and> (1::int) \<le> MAX_CONCURRENT_REQUESTS
   \<and> reachable (0, [Done Returned])
   \<and> list_all is_done [Done Returned]
   \<and> (0::int) = int (in_flight [Done Returned])"
proof -
  let ?e = "\<lparr>reply_raises = False, push_raises = (\<lambda>k. False), loading_raises = False,
       http = Response 200 (Some
         (JObject [([99, 104, 111, 105, 99, 101, 115],
                    JArray [JObject [([109, 101, 115, 115, 97, 103, 101],
                                      JObject [([99, 111, 110, 116, 101, 110, 116],
                                                JString [72, 105])])]])])),
       duration = Some 20000\<rparr>"
  let ?ev = "\<lparr>reply_token = [114], user_id = [117], message_text = [104, 105]\<rparr>"
  have r0: "reachable (0, [Waiting ?e ?ev])" by (rule reachable.init) simp
  have "step (0, [Waiting ?e ?ev]) (1, [Waiting ?e ?ev][0 := after_entry ?e ?ev Admitted])"
    by (rule step.enter[where effs = "[]"]) (simp_all add: example_entry)
  then have s1: "step (0, [Waiting ?e ?ev]) (1, [Working ?e ?ev])"
    by (simp add: after_entry_def)
  from reachable.later[OF r0 s1] have r1: "reachable (1, [Working ?e ?ev])" .
  have "step (1, [Working ?e ?ev]) (release 1, [Working ?e ?ev][0 := Done Returned])"
    by (rule step.leave[OF _ _ example_work]) simp_all
  then have s2: "step (1, [Working ?e ?ev]) (0, [Done Returned])"
    by (simp add: release_def)
  from reachable.later[OF r1 s2] have r2: "reachable (0, [Done Returned])" .
  from admission_ceiling[OF r1] have a: "(1::int) \<le> MAX_CONCURRENT_REQUESTS" by blast
  from admission_ceiling[OF r2] have b: "(0::int) = int (in_flight [Done Returned])" by blast
  from r1 a r2 b show ?thesis by simp
qed

end
